theory Spec2Isabelle
  imports Main "HOL-Library.Multiset" "HOL-Library.Sublist"
    "HOL-Library.List_Lexorder" "HOL-Library.Char_ord"
begin

unbundle bit_operations_syntax

section \<open>Byte strings\<close>

text \<open>
  The hook works on \<^verbatim>\<open>bytes\<close> throughout. A byte is a \<^typ>\<open>char\<close> (eight bits), a byte
  string a \<^typ>\<open>char list\<close>. Python compares \<^verbatim>\<open>bytes\<close> lexicographically by unsigned byte
  value; that is the order of \<^typ>\<open>char list\<close> from \<^verbatim>\<open>HOL-Library.List_Lexorder\<close> over
  \<^verbatim>\<open>HOL-Library.Char_ord\<close>.
\<close>

type_synonym bytes = "char list"

text \<open>ASCII whitespace, the set that \<^verbatim>\<open>bytes.strip()\<close> removes and that \<^verbatim>\<open>\s\<close> matches in a
  bytes pattern: space, tab, line feed, carriage return, vertical tab, form feed.\<close>

definition is_space :: "char \<Rightarrow> bool" where
  "is_space c = (c \<in> set [CHR 0x20, CHR 0x09, CHR 0x0A, CHR 0x0D, CHR 0x0B, CHR 0x0C])"

definition lstrip :: "bytes \<Rightarrow> bytes" where
  "lstrip s = dropWhile is_space s"

definition rstrip :: "bytes \<Rightarrow> bytes" where
  "rstrip s = rev (dropWhile is_space (rev s))"

definition strip :: "bytes \<Rightarrow> bytes" where
  "strip s = lstrip (rstrip s)"

text \<open>\<^verbatim>\<open>s.rstrip(chars)\<close> with an explicit set of bytes.\<close>

definition rstrip_chars :: "bytes \<Rightarrow> bytes \<Rightarrow> bytes" where
  "rstrip_chars s chars = rev (dropWhile (\<lambda>c. c \<in> set chars) (rev s))"

definition startswith :: "bytes \<Rightarrow> bytes \<Rightarrow> bool" where
  "startswith s p = (take (length p) s = p)"

definition endswith :: "bytes \<Rightarrow> bytes \<Rightarrow> bool" where
  "endswith s p = (length p \<le> length s \<and> drop (length s - length p) s = p)"

text \<open>\<^verbatim>\<open>s.find(sub)\<close>: the index of the first occurrence, if any.\<close>

fun find_bytes :: "bytes \<Rightarrow> bytes \<Rightarrow> nat option" where
  "find_bytes [] sub = (if sub = [] then Some 0 else None)"
| "find_bytes (c # cs) sub =
     (if startswith (c # cs) sub then Some 0 else map_option Suc (find_bytes cs sub))"

text \<open>\<^verbatim>\<open>sub in s\<close>.\<close>

definition contains :: "bytes \<Rightarrow> bytes \<Rightarrow> bool" where
  "contains s sub = (find_bytes s sub \<noteq> None)"

text \<open>\<^verbatim>\<open>s.partition(sep)[-1]\<close>: what follows the first occurrence of the separator, and the
  empty string when the separator does not occur.\<close>

definition partition_last :: "bytes \<Rightarrow> bytes \<Rightarrow> bytes" where
  "partition_last s sep =
     (case find_bytes s sep of None \<Rightarrow> [] | Some i \<Rightarrow> drop (i + length sep) s)"

text \<open>\<^verbatim>\<open>bytes.lower()\<close> maps the ASCII capitals to small letters and leaves every other byte.\<close>

definition lower_byte :: "char \<Rightarrow> char" where
  "lower_byte c =
     (case map_of (zip ''ABCDEFGHIJKLMNOPQRSTUVWXYZ'' ''abcdefghijklmnopqrstuvwxyz'') c of
        None \<Rightarrow> c | Some l \<Rightarrow> l)"

definition lower :: "bytes \<Rightarrow> bytes" where
  "lower s = map lower_byte s"

text \<open>Iterating a file opened in binary mode yields its lines: each ends after a line feed,
  the last one where the file ends.\<close>

fun split_lines :: "bytes \<Rightarrow> bytes \<Rightarrow> bytes list" where
  "split_lines cur [] = (if cur = [] then [] else [cur])"
| "split_lines cur (c # cs) =
     (if c = CHR 0x0A then (cur @ [c]) # split_lines [] cs else split_lines (cur @ [c]) cs)"

definition readlines :: "bytes \<Rightarrow> bytes list" where
  "readlines s = split_lines [] s"

text \<open>Strict UTF-8, as \<^verbatim>\<open>bytes.decode()\<close> accepts it: no overlong forms, no surrogates,
  nothing above U+10FFFF.\<close>

definition cont_byte :: "char \<Rightarrow> nat \<Rightarrow> nat \<Rightarrow> bool" where
  "cont_byte c lo hi = (lo \<le> (of_char c :: nat) \<and> (of_char c :: nat) \<le> hi)"

fun utf8_valid :: "bytes \<Rightarrow> bool" where
  "utf8_valid [] = True"
| "utf8_valid (a # s) =
     (let n = (of_char a :: nat) in
      if n < 0x80 then utf8_valid s
      else if 0xC2 \<le> n \<and> n \<le> 0xDF then
        (case s of b # s1 \<Rightarrow> cont_byte b 0x80 0xBF \<and> utf8_valid s1 | _ \<Rightarrow> False)
      else if 0xE0 \<le> n \<and> n \<le> 0xEF then
        (case s of b # c # s2 \<Rightarrow>
           cont_byte b (if n = 0xE0 then 0xA0 else 0x80) (if n = 0xED then 0x9F else 0xBF) \<and>
           cont_byte c 0x80 0xBF \<and> utf8_valid s2
         | _ \<Rightarrow> False)
      else if 0xF0 \<le> n \<and> n \<le> 0xF4 then
        (case s of b # c # d # s3 \<Rightarrow>
           cont_byte b (if n = 0xF0 then 0x90 else 0x80) (if n = 0xF4 then 0x8F else 0xBF) \<and>
           cont_byte c 0x80 0xBF \<and> cont_byte d 0x80 0xBF \<and> utf8_valid s3
         | _ \<Rightarrow> False)
      else False)"

section \<open>The regular expressions of \<^verbatim>\<open>Requirement\<close>\<close>

text \<open>\<^verbatim>\<open>UNTIL_SEP = [^;\s]+\<close>, matched at the start of the string: the longest prefix free of
  semicolons and whitespace, and no match when that prefix is empty.\<close>

definition UNTIL_SEP_match :: "bytes \<Rightarrow> bytes option" where
  "UNTIL_SEP_match s =
     (let tok = takeWhile (\<lambda>c. c \<noteq> CHR '';'' \<and> \<not> is_space c) s
      in if tok = [] then None else Some tok)"

text \<open>\<^verbatim>\<open>UNTIL_COMPARISON = ={2,3}|!=|~=|>=?|<=?\<close>. Only the start of the leftmost match is
  used: the first position at which one of the operators begins.\<close>

definition comparison_operators :: "bytes list" where
  "comparison_operators = [''==='', ''=='', ''!='', ''~='', ''>='', ''>'', ''<='', ''<'']"

fun UNTIL_COMPARISON_search :: "bytes \<Rightarrow> nat option" where
  "UNTIL_COMPARISON_search [] = None"
| "UNTIL_COMPARISON_search (c # cs) =
     (if list_ex (startswith (c # cs)) comparison_operators then Some 0
      else map_option Suc (UNTIL_COMPARISON_search cs))"

text \<open>\<^verbatim>\<open>VERSION_MATCHER = (?:={2,3}|!=|~=|>=?|<=?|@)\s*(?P<version>[A-Za-z0-9./:]+)$\<close>.
  Without the multi-line flag \<^verbatim>\<open>$\<close> matches at the end of the string and before a line feed
  that is its last byte. The search returns the \<^verbatim>\<open>version\<close> group of the leftmost match.\<close>

definition is_version_char :: "char \<Rightarrow> bool" where
  "is_version_char c =
     (c \<in> set ''ABCDEFGHIJKLMNOPQRSTUVWXYZabcdefghijklmnopqrstuvwxyz0123456789./:'')"

definition version_tail :: "bytes \<Rightarrow> bytes option" where
  "version_tail t =
     (let v = takeWhile is_version_char t; r = dropWhile is_version_char t
      in if v \<noteq> [] \<and> (r = [] \<or> r = [CHR 0x0A]) then Some v else None)"

definition after_operator :: "bytes \<Rightarrow> bytes option" where
  "after_operator t = version_tail (dropWhile is_space t)"

definition version_operators :: "bytes list" where
  "version_operators = comparison_operators @ [''@'']"

definition match_version_at :: "bytes \<Rightarrow> bytes option" where
  "match_version_at s =
     (case List.find (\<lambda>oper. startswith s oper \<and> after_operator (drop (length oper) s) \<noteq> None)
             version_operators of
        None \<Rightarrow> None
      | Some oper \<Rightarrow> after_operator (drop (length oper) s))"

fun VERSION_MATCHER_search :: "bytes \<Rightarrow> bytes option" where
  "VERSION_MATCHER_search [] = match_version_at []"
| "VERSION_MATCHER_search (c # cs) =
     (case match_version_at (c # cs) of
        Some v \<Rightarrow> Some v
      | None \<Rightarrow> VERSION_MATCHER_search cs)"

section \<open>The class \<^verbatim>\<open>Requirement\<close>\<close>

text \<open>
  The field \<^verbatim>\<open>value\<close> is called \<open>val\<close> here. The field \<^verbatim>\<open>version\<close> only caches what
  \<^verbatim>\<open>extract_version\<close> returned last and is read nowhere in the hook, so \<open>extract_version\<close>
  returns the version and the record does not keep it.
\<close>

datatype error = AssertionError | UnicodeDecodeError | IndexError | FileNotFoundError

record Requirement =
  val :: "bytes option"
  comments :: "bytes list"

definition new_Requirement :: Requirement where
  "new_Requirement = \<lparr>val = None, comments = []\<rparr>"

definition name :: "Requirement \<Rightarrow> error + bytes" where
  "name self =
     (case val self of
        None \<Rightarrow> Inl AssertionError
      | Some v \<Rightarrow>
          let name = lower v in
          if contains v ''#egg='' then Inr (partition_last name ''#egg='')
          else if contains v ''&egg='' then Inr (partition_last name ''&egg='')
          else
            (case UNTIL_SEP_match name of
               None \<Rightarrow> Inl AssertionError
             | Some tok \<Rightarrow>
                 (case UNTIL_COMPARISON_search tok of
                    None \<Rightarrow> Inr tok
                  | Some i \<Rightarrow> Inr (take i tok))))"

definition extract_version :: "Requirement \<Rightarrow> bytes option" where
  "extract_version self =
     (case val self of
        None \<Rightarrow> None
      | Some v \<Rightarrow> if v = [] then None else VERSION_MATCHER_search v)"

definition has_version :: "Requirement \<Rightarrow> bool" where
  "has_version self = (extract_version self \<noteq> None)"

text \<open>\<^verbatim>\<open>self.value.decode().startswith('-r')\<close>: the decoding raises on bytes that are not
  UTF-8; on valid UTF-8 the text starts with \<^verbatim>\<open>-r\<close> exactly when the bytes do.\<close>

definition is_include :: "Requirement \<Rightarrow> error + bool" where
  "is_include self =
     (case val self of
        None \<Rightarrow> Inr False
      | Some v \<Rightarrow>
          if v = [] then Inr False
          else if \<not> utf8_valid v then Inl UnicodeDecodeError
          else Inr (startswith v ''-r''))"

text \<open>\<^verbatim>\<open>__lt__\<close>.\<close>

definition lt :: "Requirement \<Rightarrow> Requirement \<Rightarrow> error + bool" where
  "lt self requirement =
     (case val self of
        None \<Rightarrow> Inl AssertionError
      | Some v \<Rightarrow>
          if v = [CHR 0x0A] then Inr True
          else if val requirement = Some [CHR 0x0A] then Inr False
          else
            (case name self of
               Inl e \<Rightarrow> Inl e
             | Inr a \<Rightarrow>
                 (case name requirement of
                    Inl e \<Rightarrow> Inl e
                  | Inr b \<Rightarrow> Inr (a < b))))"

definition is_complete :: "Requirement \<Rightarrow> bool" where
  "is_complete self =
     (case val self of
        None \<Rightarrow> False
      | Some v \<Rightarrow> \<not> endswith (rstrip_chars v [CHR 0x0D, CHR 0x0A]) [CHR 0x5C])"

definition append_value :: "Requirement \<Rightarrow> bytes \<Rightarrow> Requirement" where
  "append_value self v =
     (case val self of
        Some old \<Rightarrow> self\<lparr>val := Some (old @ v)\<rparr>
      | None \<Rightarrow> self\<lparr>val := Some v\<rparr>)"

section \<open>\<^verbatim>\<open>sorted\<close>\<close>

text \<open>
  \<^verbatim>\<open>sorted(requirements)\<close> is a stable comparison sort that asks only \<^verbatim>\<open>x < y\<close> and lets an
  exception of the comparison through. It is modelled as an insertion sort: the entries are
  taken from left to right, and each is put in front of the first entry of the sorted prefix
  that it is less than, behind the entries it is not less than. Among the requirements of a
  file at most the first has the value \<^verbatim>\<open>b'\n'\<close>, so \<^verbatim>\<open>__lt__\<close> orders them by a key, and every
  stable sort returns the same list. As to the exception of \<open>name\<close>: a comparison with the
  marker does not ask for a name, any other comparison asks for both, and a sort compares
  every entry with a neighbour of the result; so does this one.
\<close>

fun insert_requirement :: "Requirement \<Rightarrow> Requirement list \<Rightarrow> error + Requirement list" where
  "insert_requirement x [] = Inr [x]"
| "insert_requirement x (y # ys) =
     (case lt x y of
        Inl e \<Rightarrow> Inl e
      | Inr True \<Rightarrow> Inr (x # y # ys)
      | Inr False \<Rightarrow>
          (case insert_requirement x ys of
             Inl e \<Rightarrow> Inl e
           | Inr zs \<Rightarrow> Inr (y # zs)))"

fun sort_into :: "Requirement list \<Rightarrow> Requirement list \<Rightarrow> error + Requirement list" where
  "sort_into acc [] = Inr acc"
| "sort_into acc (x # xs) =
     (case insert_requirement x acc of
        Inl e \<Rightarrow> Inl e
      | Inr acc' \<Rightarrow> sort_into acc' xs)"

definition sorted_requirements :: "Requirement list \<Rightarrow> error + Requirement list" where
  "sorted_requirements requirements = sort_into [] requirements"

section \<open>\<^verbatim>\<open>fix_requirements\<close>\<close>

definition PASS :: int where "PASS = 0"
definition FAIL :: int where "FAIL = 1"

text \<open>\<^verbatim>\<open>before = list(f)\<close>, and the line feed added to a last line that has none.\<close>

definition add_newline :: "bytes list \<Rightarrow> bytes list" where
  "add_newline before_lines =
     (if before_lines \<noteq> [] \<and> \<not> endswith (last before_lines) [CHR 0x0A]
      then butlast before_lines @ [last before_lines @ [CHR 0x0A]] else before_lines)"

text \<open>One turn of the loop over the lines. The current requirement is the last of the list.\<close>

definition set_last :: "Requirement list \<Rightarrow> Requirement \<Rightarrow> Requirement list" where
  "set_last requirements r = butlast requirements @ [r]"

definition first_comment_is_hash :: "Requirement \<Rightarrow> bool" where
  "first_comment_is_hash requirement =
     (case comments requirement of [] \<Rightarrow> False | c # _ \<Rightarrow> startswith c ''#'')"

definition scan_line :: "Requirement list \<Rightarrow> bytes \<Rightarrow> Requirement list" where
  "scan_line requirements0 line =
     (let requirements =
            (if requirements0 = [] \<or> is_complete (last requirements0)
             then requirements0 @ [new_Requirement] else requirements0);
          requirement = last requirements
      in if length requirements = 1 \<and> strip line = [] then
           (if first_comment_is_hash requirement
            then set_last requirements (requirement\<lparr>val := Some [CHR 0x0A]\<rparr>)
            else set_last requirements
                   (requirement\<lparr>comments := comments requirement @ [line]\<rparr>))
         else if startswith (lstrip line) ''#'' \<or> strip line = [] then
           set_last requirements (requirement\<lparr>comments := comments requirement @ [line]\<rparr>)
         else set_last requirements (append_value requirement line))"

definition scan :: "bytes list \<Rightarrow> Requirement list" where
  "scan before_lines = foldl scan_line [] before_lines"

text \<open>A file that ends in comments: the last requirement has no value, and its comments are
  kept for the end.\<close>

definition pop_rest :: "Requirement list \<Rightarrow> error + (Requirement list \<times> bytes list)" where
  "pop_rest requirements =
     (if requirements = [] then Inl IndexError
      else if val (last requirements) = None
      then Inr (butlast requirements, comments (last requirements))
      else Inr (requirements, []))"

definition blacklisted :: bytes where
  "blacklisted = ''pkg-resources==0.0.0'' @ [CHR 0x0A]"

definition remove_blacklisted :: "Requirement list \<Rightarrow> Requirement list" where
  "remove_blacklisted requirements = filter (\<lambda>req. val req \<noteq> Some blacklisted) requirements"

text \<open>
  The loop over the sorted requirements. \<open>missing_versions\<close> holds the value of each
  requirement that is reported; the source appends \<^verbatim>\<open>value.decode().strip()\<close> of it, the same
  bytes as text without the surrounding whitespace, and that decoding cannot raise, the
  one in \<open>is_include\<close> having accepted the same bytes.
\<close>

fun emit :: "bool \<Rightarrow> Requirement list \<Rightarrow> bytes list \<Rightarrow> bytes list \<Rightarrow>
    error + (bytes list \<times> bytes list)" where
  "emit require_version [] after missing_versions = Inr (after, missing_versions)"
| "emit require_version (requirement # todo) after missing_versions =
     (case val requirement of
        None \<Rightarrow> Inl AssertionError
      | Some v \<Rightarrow>
          if v = [] then Inl AssertionError
          else if require_version then
            (case is_include requirement of
               Inl e \<Rightarrow> Inl e
             | Inr inc \<Rightarrow>
                 emit require_version todo (after @ comments requirement @ [v])
                   (if \<not> inc \<and> \<not> has_version requirement
                    then missing_versions @ [v] else missing_versions))
          else emit require_version todo (after @ comments requirement @ [v]) missing_versions)"

datatype file_call = Seek nat | Write bytes | Truncate

datatype message = Missing_versions "bytes list" | Sorting string

record result =
  outcome :: int
  calls :: "file_call list"
  printed :: "message list"

text \<open>Lines 100 to 146: from the lines to \<open>after\<close> and \<open>missing_versions\<close>.\<close>

definition corrected :: "bytes list \<Rightarrow> bool \<Rightarrow> error + (bytes list \<times> bytes list)" where
  "corrected before_lines require_version =
     (case pop_rest (scan before_lines) of
        Inl e \<Rightarrow> Inl e
      | Inr (requirements, rest) \<Rightarrow>
          (case sorted_requirements (remove_blacklisted requirements) of
             Inl e \<Rightarrow> Inl e
           | Inr ordered \<Rightarrow>
               (case emit require_version ordered [] [] of
                  Inl e \<Rightarrow> Inl e
                | Inr (after, missing_versions) \<Rightarrow> Inr (after @ rest, missing_versions))))"

definition fix_requirements :: "bytes \<Rightarrow> bool \<Rightarrow> error + result" where
  "fix_requirements f require_version =
     (let before_lines = readlines f;
          before_string = concat before_lines
      in if strip before_string = [] then Inr \<lparr>outcome = PASS, calls = [], printed = []\<rparr>
         else
           (case corrected (add_newline before_lines) require_version of
              Inl e \<Rightarrow> Inl e
            | Inr (after, missing_versions) \<Rightarrow>
                let after_string = concat after;
                    outcome0 = PASS;
                    messages = (if length missing_versions > 0
                                then [Missing_versions missing_versions] else []);
                    outcome1 = (if length missing_versions > 0 then FAIL else outcome0);
                    file_calls = (if before_string \<noteq> after_string
                                  then [Seek 0, Write after_string, Truncate] else []);
                    outcome2 = (if before_string \<noteq> after_string then FAIL else outcome1)
                in Inr \<lparr>outcome = outcome2, calls = file_calls, printed = messages\<rparr>))"

section \<open>The file and \<^verbatim>\<open>main\<close>\<close>

text \<open>A file opened with \<^verbatim>\<open>rb+\<close>: its bytes and the position of the next read or write.\<close>

record file_state =
  content :: bytes
  pos :: nat

fun do_call :: "file_state \<Rightarrow> file_call \<Rightarrow> file_state" where
  "do_call f (Seek n) = f\<lparr>pos := n\<rparr>"
| "do_call f (Write b) =
     f\<lparr>content := take (pos f) (content f) @ replicate (pos f - length (content f)) (CHR 0x00)
                     @ b @ drop (pos f + length b) (content f),
       pos := pos f + length b\<rparr>"
| "do_call f Truncate = f\<lparr>content := take (pos f) (content f)\<rparr>"

text \<open>The bytes of the file once \<open>fix_requirements\<close> has read it to its end and made the
  given calls.\<close>

definition file_after :: "bytes \<Rightarrow> file_call list \<Rightarrow> bytes" where
  "file_after f cs = content (foldl do_call \<lparr>content = f, pos = length f\<rparr> cs)"

record world =
  files :: "string \<rightharpoonup> bytes"
  stdout :: "message list"

fun main_loop :: "bool \<Rightarrow> string list \<Rightarrow> world \<Rightarrow> int \<Rightarrow> error + (world \<times> int)" where
  "main_loop require_version [] w retv = Inr (w, retv)"
| "main_loop require_version (arg # args) w retv =
     (case files w arg of
        None \<Rightarrow> Inl FileNotFoundError
      | Some f \<Rightarrow>
          (case fix_requirements f require_version of
             Inl e \<Rightarrow> Inl e
           | Inr res \<Rightarrow>
               let w1 = w\<lparr>files := (files w)(arg \<mapsto> file_after f (calls res)),
                          stdout := stdout w @ printed res\<rparr>;
                   w2 = (if outcome res \<noteq> 0 then w1\<lparr>stdout := stdout w1 @ [Sorting arg]\<rparr>
                         else w1)
               in main_loop require_version args w2 (retv OR outcome res)))"

text \<open>\<^verbatim>\<open>main\<close> after the command line is parsed: the file names and the flag.\<close>

definition main :: "string list \<Rightarrow> bool \<Rightarrow> world \<Rightarrow> error + (world \<times> int)" where
  "main filenames require_version w = main_loop require_version filenames w PASS"

section \<open>What the claims speak of\<close>

text \<open>The top-of-file marker, and the order in which the entries are to appear: the marker
  before everything, the other entries by their names. A name that raises compares with
  nothing.\<close>

definition is_marker :: "Requirement \<Rightarrow> bool" where
  "is_marker r = (val r = Some [CHR 0x0A])"

definition name_le :: "Requirement \<Rightarrow> Requirement \<Rightarrow> bool" where
  "name_le a b = (case (name a, name b) of (Inr x, Inr y) \<Rightarrow> x \<le> y | _ \<Rightarrow> False)"

definition name_less :: "Requirement \<Rightarrow> Requirement \<Rightarrow> bool" where
  "name_less a b = (case (name a, name b) of (Inr x, Inr y) \<Rightarrow> x < y | _ \<Rightarrow> False)"

definition entry_le :: "Requirement \<Rightarrow> Requirement \<Rightarrow> bool" where
  "entry_le a b = (is_marker a \<or> (\<not> is_marker b \<and> name_le a b))"

text \<open>The key of the sort: entries with the same key compare equal.\<close>

definition entry_key :: "Requirement \<Rightarrow> (error + bytes) option" where
  "entry_key r = (if is_marker r then None else Some (name r))"

definition marker_only_first :: "Requirement list \<Rightarrow> bool" where
  "marker_only_first rs = (\<forall>r \<in> set (tl rs). \<not> is_marker r)"

text \<open>A comment line or a blank one: the test of the second branch of the loop.\<close>

definition is_comment_line :: "bytes \<Rightarrow> bool" where
  "is_comment_line line = (startswith (lstrip line) ''#'' \<or> strip line = [])"

text \<open>What one turn of the loop does to the current requirement; \<open>only\<close> says that it is the
  only requirement so far.\<close>

definition add_line :: "bool \<Rightarrow> Requirement \<Rightarrow> bytes \<Rightarrow> Requirement" where
  "add_line only r line =
     (if only \<and> strip line = [] then
        (if first_comment_is_hash r then r\<lparr>val := Some [CHR 0x0A]\<rparr>
         else r\<lparr>comments := comments r @ [line]\<rparr>)
      else if is_comment_line line then r\<lparr>comments := comments r @ [line]\<rparr>
      else append_value r line)"

definition marker_step :: "bool \<Rightarrow> Requirement \<Rightarrow> bytes \<Rightarrow> bool" where
  "marker_step only r line = (only \<and> strip line = [] \<and> first_comment_is_hash r)"

text \<open>What the second loop appends to \<open>after\<close> for one requirement.\<close>

definition serialize :: "Requirement \<Rightarrow> bytes list" where
  "serialize r = comments r @ (case val r of None \<Rightarrow> [] | Some v \<Rightarrow> [v])"

text \<open>The test of the second loop for a requirement whose value decodes.\<close>

definition lacks_version :: "Requirement \<Rightarrow> bool" where
  "lacks_version r =
     (case val r of None \<Rightarrow> False | Some v \<Rightarrow> \<not> startswith v ''-r'' \<and> \<not> has_version r)"

text \<open>A physical line: some bytes without a line feed, and the line feed that ends them.\<close>

definition proper_line :: "bytes \<Rightarrow> bool" where
  "proper_line l = (l \<noteq> [] \<and> last l = CHR 0x0A \<and> CHR 0x0A \<notin> set (butlast l))"

text \<open>The physical lines that a requirement holds: its comments and the lines of its
  value.\<close>

definition lines_of :: "Requirement \<Rightarrow> bytes list" where
  "lines_of r = comments r @ (case val r of None \<Rightarrow> [] | Some v \<Rightarrow> readlines v)"

definition entry_ok :: "Requirement \<Rightarrow> bool" where
  "entry_ok r = ((\<forall>c \<in> set (comments r). proper_line c) \<and>
     (\<forall>v. val r = Some v \<longrightarrow> (\<forall>l \<in> set (readlines v). proper_line l)))"

definition marker_lines :: "Requirement list \<Rightarrow> bytes multiset" where
  "marker_lines rs = (if rs \<noteq> [] \<and> is_marker (hd rs) then {#[CHR 0x0A]#} else {#})"

text \<open>The comments of a requirement are comment lines of the file, in the order of the
  file.\<close>

definition comments_ok :: "bytes list \<Rightarrow> Requirement \<Rightarrow> bool" where
  "comments_ok ls r = (subseq (comments r) ls \<and> (\<forall>c \<in> set (comments r). is_comment_line c))"

text \<open>
  The language of \<open>VERSION_MATCHER\<close>, read off the pattern: somewhere an operator, then
  whitespace, then a version of one byte or more that runs to the end of the string or to
  its last line feed.
\<close>

definition ends_with_version :: "bytes \<Rightarrow> bool" where
  "ends_with_version v =
     (\<exists>pre oper ws ver nl.
        v = pre @ oper @ ws @ ver @ nl \<and> oper \<in> set version_operators \<and>
        (\<forall>c \<in> set ws. is_space c) \<and> ver \<noteq> [] \<and> (\<forall>c \<in> set ver. is_version_char c) \<and>
        (nl = [] \<or> nl = [CHR 0x0A]))"

definition missing_version :: "Requirement \<Rightarrow> bool" where
  "missing_version r =
     (\<exists>v. val r = Some v \<and> \<not> startswith v ''-r'' \<and> \<not> ends_with_version v)"

section \<open>Reading and writing the file\<close>

lemma concat_split_lines: "concat (split_lines cur s) = cur @ s"
  by (induction s arbitrary: cur) auto

lemma concat_readlines: "concat (readlines s) = s"
  by (simp add: readlines_def concat_split_lines)

lemma file_after_rewrite: "file_after f [Seek 0, Write b, Truncate] = b"
  by (simp add: file_after_def)

lemma file_after_nothing: "file_after f [] = f"
  by (simp add: file_after_def)

text \<open>
  Claim C2. Whenever \<open>fix_requirements\<close> returns: on a file of whitespace only nothing is
  serialized, the file is left as it is and the outcome is \<open>PASS\<close>; on any other file the
  three calls \<open>seek(0)\<close>, \<open>write(after_string)\<close>, \<open>truncate()\<close> are made exactly when the
  serialized bytes differ from the bytes read, the outcome is \<open>FAIL\<close> exactly when they differ
  or \<open>missing_versions\<close> is not empty, and \<open>PASS\<close> otherwise.
\<close>

theorem rewrite_iff_changed:
  assumes "fix_requirements f require_version = Inr res"
  shows "(strip f = [] \<longrightarrow>
            calls res = [] \<and> outcome res = PASS \<and> file_after f (calls res) = f) \<and>
         (strip f \<noteq> [] \<longrightarrow>
            (\<exists>after missing_versions.
               corrected (add_newline (readlines f)) require_version
                 = Inr (after, missing_versions) \<and>
               calls res =
                 (if concat after \<noteq> f then [Seek 0, Write (concat after), Truncate] else []) \<and>
               outcome res =
                 (if concat after \<noteq> f \<or> missing_versions \<noteq> [] then FAIL else PASS) \<and>
               file_after f (calls res) = concat after))"
proof (cases "strip f = []")
  case True
  with assms have "res = \<lparr>outcome = PASS, calls = [], printed = []\<rparr>"
    by (simp add: fix_requirements_def concat_readlines)
  with True show ?thesis by (simp add: file_after_nothing)
next
  case False
  from assms False obtain after missing_versions where
    c: "corrected (add_newline (readlines f)) require_version = Inr (after, missing_versions)"
    by (auto simp: fix_requirements_def concat_readlines Let_def split: sum.splits)
  with assms False have
    "res = \<lparr>outcome = (if f \<noteq> concat after then FAIL
                       else if 0 < length missing_versions then FAIL else PASS),
            calls = (if f \<noteq> concat after then [Seek 0, Write (concat after), Truncate] else []),
            printed = (if 0 < length missing_versions
                       then [Missing_versions missing_versions] else [])\<rparr>"
    by (auto simp: fix_requirements_def concat_readlines Let_def)
  with False c show ?thesis
    by (auto simp: file_after_rewrite file_after_nothing)
qed

theorem rewrite_iff_changed_witness:
  "(\<exists>res. fix_requirements ''foo\<newline>bar\<newline>'' False = Inr res \<and>
      strip ''foo\<newline>bar\<newline>'' \<noteq> [] \<and>
      (\<exists>after missing_versions.
         corrected (add_newline (readlines ''foo\<newline>bar\<newline>'')) False
           = Inr (after, missing_versions) \<and>
         calls res =
           (if concat after \<noteq> ''foo\<newline>bar\<newline>''
            then [Seek 0, Write (concat after), Truncate] else []) \<and>
         outcome res =
           (if concat after \<noteq> ''foo\<newline>bar\<newline>'' \<or> missing_versions \<noteq> [] then FAIL else PASS) \<and>
         file_after ''foo\<newline>bar\<newline>'' (calls res) = concat after)) \<and>
   (\<exists>res. fix_requirements '' \<newline>'' True = Inr res \<and> strip '' \<newline>'' = [] \<and>
      calls res = [] \<and> outcome res = PASS \<and> file_after '' \<newline>'' (calls res) = '' \<newline>'')"
proof -
  have a: "fix_requirements ''foo\<newline>bar\<newline>'' False
     = Inr \<lparr>outcome = 1, calls = [Seek 0, Write ''bar\<newline>foo\<newline>'', Truncate], printed = []\<rparr>"
    by code_simp
  have b: "strip ''foo\<newline>bar\<newline>'' \<noteq> []" by code_simp
  have c: "fix_requirements '' \<newline>'' True = Inr \<lparr>outcome = 0, calls = [], printed = []\<rparr>"
    by code_simp
  have d: "strip '' \<newline>'' = []" by code_simp
  from rewrite_iff_changed [OF a] b a have first: "\<exists>res. fix_requirements ''foo\<newline>bar\<newline>'' False = Inr res \<and>
      strip ''foo\<newline>bar\<newline>'' \<noteq> [] \<and>
      (\<exists>after missing_versions.
         corrected (add_newline (readlines ''foo\<newline>bar\<newline>'')) False
           = Inr (after, missing_versions) \<and>
         calls res =
           (if concat after \<noteq> ''foo\<newline>bar\<newline>''
            then [Seek 0, Write (concat after), Truncate] else []) \<and>
         outcome res =
           (if concat after \<noteq> ''foo\<newline>bar\<newline>'' \<or> missing_versions \<noteq> [] then FAIL else PASS) \<and>
         file_after ''foo\<newline>bar\<newline>'' (calls res) = concat after)"
    by blast
  from rewrite_iff_changed [OF c] d c have second: "\<exists>res. fix_requirements '' \<newline>'' True = Inr res \<and>
      strip '' \<newline>'' = [] \<and>
      calls res = [] \<and> outcome res = PASS \<and> file_after '' \<newline>'' (calls res) = '' \<newline>''"
    by blast
  from first second show ?thesis by (rule conjI)
qed

text \<open>
  Claim C6. \<open>fix_requirements\<close> does raise on some inputs. A first line that starts with a
  space is appended to the value as it is; \<open>UNTIL_SEP\<close> then matches nothing at the start of
  the lower-cased value, and the assertion \<^verbatim>\<open>assert m is not None\<close> of \<open>name\<close> fails as soon as
  the sort compares the entry with another one. With \<open>require_version\<close>, \<open>is_include\<close> decodes
  the value and raises on a byte that is not UTF-8.
\<close>

theorem fix_requirements_raises:
  "fix_requirements '' foo\<newline>bar\<newline>'' False = Inl AssertionError \<and>
   fix_requirements [CHR 0xFF, CHR 0x0A] True = Inl UnicodeDecodeError"
  by code_simp

text \<open>
  Claim C3. A second run is not always a \<open>PASS\<close>. The last line of the file below ends in a
  continuation backslash; the first run sorts that open entry in front of the entry \<open>b\<close> and
  its comment, and the second run reads the comment and \<open>b\<close> as the continuation of \<open>a\<close>,
  moves the comment to the front, rewrites the file again and returns \<open>FAIL\<close>.
\<close>

theorem second_run_fails:
  "fix_requirements (''#c\<newline>b\<newline>a '' @ [CHR 0x5C, CHR 0x0A]) False
     = Inr \<lparr>outcome = FAIL,
            calls = [Seek 0, Write (''a '' @ [CHR 0x5C, CHR 0x0A] @ ''#c\<newline>b\<newline>''), Truncate],
            printed = []\<rparr> \<and>
   fix_requirements (''a '' @ [CHR 0x5C, CHR 0x0A] @ ''#c\<newline>b\<newline>'') False
     = Inr \<lparr>outcome = FAIL,
            calls = [Seek 0, Write (''#c\<newline>a '' @ [CHR 0x5C, CHR 0x0A] @ ''b\<newline>''), Truncate],
            printed = []\<rparr>"
  by code_simp

text \<open>
  Claim C8. \<open>main\<close> prints \<^verbatim>\<open>Sorting <path>\<close> whenever \<open>fix_requirements\<close> returns \<open>FAIL\<close>, also
  when the file is in order and only a version is missing: the file below is not written to
  and keeps its bytes, and the message is printed.
\<close>

theorem sorting_printed_without_change:
  "fix_requirements ''a\<newline>'' True
     = Inr \<lparr>outcome = FAIL, calls = [], printed = [Missing_versions [''a\<newline>'']]\<rparr> \<and>
   (case main [''requirements.txt''] True
           \<lparr>files = [''requirements.txt'' \<mapsto> ''a\<newline>''], stdout = []\<rparr> of
      Inl e \<Rightarrow> False
    | Inr (w, retv) \<Rightarrow>
        stdout w = [Missing_versions [''a\<newline>''], Sorting ''requirements.txt''] \<and>
        files w ''requirements.txt'' = Some ''a\<newline>'' \<and> retv = FAIL)"
  by code_simp

section \<open>Sorting\<close>

lemma lt_True:
  assumes "lt x y = Inr True" "\<not> is_marker x"
  shows "\<not> is_marker y \<and> name_less x y"
  using assms
  by (auto simp: lt_def is_marker_def name_less_def split: option.splits if_splits sum.splits)

lemma lt_False:
  assumes "lt x y = Inr False" "\<not> is_marker x"
  shows "is_marker y \<or> name_le y x"
  using assms
  by (auto simp: lt_def is_marker_def name_le_def split: option.splits if_splits sum.splits)

lemma name_less_le_trans: "name_less a b \<Longrightarrow> name_le b c \<Longrightarrow> name_less a c"
  by (auto simp: name_less_def name_le_def split: sum.splits)

lemma name_less_imp_le: "name_less a b \<Longrightarrow> name_le a b"
  by (auto simp: name_less_def name_le_def split: sum.splits)

lemma name_less_key: "name_less a b \<Longrightarrow> name b \<noteq> name a"
  by (auto simp: name_less_def split: sum.splits)

lemma insert_requirement_split:
  assumes "\<not> is_marker x" "insert_requirement x ys = Inr zs"
  shows "\<exists>ys1 ys2. ys = ys1 @ ys2 \<and> zs = ys1 @ x # ys2 \<and>
           (\<forall>y \<in> set ys1. is_marker y \<or> name_le y x) \<and>
           (ys2 \<noteq> [] \<longrightarrow> \<not> is_marker (hd ys2) \<and> name_less x (hd ys2))"
  using assms
proof (induction ys arbitrary: zs)
  case Nil
  then show ?case by simp
next
  case (Cons y ys)
  show ?case
  proof (cases "lt x y")
    case (Inl e)
    with Cons.prems show ?thesis by simp
  next
    case (Inr b)
    show ?thesis
    proof (cases b)
      case True
      with Inr Cons.prems have zs: "zs = x # y # ys" by simp
      from True Inr Cons.prems(1) have "\<not> is_marker y \<and> name_less x y"
        by (simp add: lt_True)
      with zs have "y # ys = [] @ (y # ys) \<and> zs = [] @ x # (y # ys) \<and>
           (\<forall>y \<in> set []. is_marker y \<or> name_le y x) \<and>
           (y # ys \<noteq> [] \<longrightarrow> \<not> is_marker (hd (y # ys)) \<and> name_less x (hd (y # ys)))"
        by simp
      then show ?thesis by blast
    next
      case False
      with Inr Cons.prems obtain zs' where
        ins: "insert_requirement x ys = Inr zs'" and zs: "zs = y # zs'"
        by (auto split: sum.splits)
      from False Inr Cons.prems(1) have y: "is_marker y \<or> name_le y x"
        by (simp add: lt_False)
      from Cons.IH [OF Cons.prems(1) ins] obtain ys1 ys2 where
        "ys = ys1 @ ys2" "zs' = ys1 @ x # ys2"
        "\<forall>y \<in> set ys1. is_marker y \<or> name_le y x"
        "ys2 \<noteq> [] \<longrightarrow> \<not> is_marker (hd ys2) \<and> name_less x (hd ys2)"
        by blast
      with y zs have "y # ys = (y # ys1) @ ys2 \<and> zs = (y # ys1) @ x # ys2 \<and>
           (\<forall>y \<in> set (y # ys1). is_marker y \<or> name_le y x) \<and>
           (ys2 \<noteq> [] \<longrightarrow> \<not> is_marker (hd ys2) \<and> name_less x (hd ys2))"
        by simp
      then show ?thesis by blast
    qed
  qed
qed

text \<open>In a sorted list everything behind an entry that is greater than \<open>x\<close> is greater.\<close>

lemma greater_tail:
  assumes "sorted_wrt entry_le ys2" "ys2 \<noteq> []" "\<not> is_marker (hd ys2)" "name_less x (hd ys2)"
  shows "\<forall>y \<in> set ys2. \<not> is_marker y \<and> name_less x y"
proof
  fix y assume "y \<in> set ys2"
  from assms(2) obtain h t where ys2: "ys2 = h # t" by (cases ys2) auto
  show "\<not> is_marker y \<and> name_less x y"
  proof (cases "y = h")
    case True
    with assms ys2 show ?thesis by simp
  next
    case False
    with \<open>y \<in> set ys2\<close> ys2 have "y \<in> set t" by simp
    with assms(1) ys2 have "entry_le h y" by simp
    with assms(3) ys2 have "\<not> is_marker y" "name_le h y" by (auto simp: entry_le_def)
    with assms(4) ys2 show ?thesis by (auto intro: name_less_le_trans)
  qed
qed

lemma insert_requirement_sorted:
  assumes "\<not> is_marker x" "insert_requirement x ys = Inr zs" "sorted_wrt entry_le ys"
  shows "sorted_wrt entry_le zs"
proof -
  from insert_requirement_split [OF assms(1,2)] obtain ys1 ys2 where
    s: "ys = ys1 @ ys2" "zs = ys1 @ x # ys2"
    "\<forall>y \<in> set ys1. is_marker y \<or> name_le y x"
    "ys2 \<noteq> [] \<longrightarrow> \<not> is_marker (hd ys2) \<and> name_less x (hd ys2)"
    by blast
  from assms(3) s(1) have sorted2: "sorted_wrt entry_le ys2" and sorted1: "sorted_wrt entry_le ys1"
    and cross: "\<forall>a \<in> set ys1. \<forall>b \<in> set ys2. entry_le a b"
    by (auto simp: sorted_wrt_append)
  have before: "\<forall>y \<in> set ys1. entry_le y x"
    using s(3) assms(1) by (auto simp: entry_le_def)
  have after: "\<forall>y \<in> set ys2. entry_le x y"
  proof (cases "ys2 = []")
    case True then show ?thesis by simp
  next
    case False
    with s(4) greater_tail [OF sorted2 False] have "\<forall>y \<in> set ys2. \<not> is_marker y \<and> name_less x y"
      by blast
    then show ?thesis by (auto simp: entry_le_def intro: name_less_imp_le)
  qed
  from sorted1 sorted2 cross before after s(2) show ?thesis
    by (auto simp: sorted_wrt_append)
qed

lemma insert_requirement_stable:
  assumes "\<not> is_marker x" "insert_requirement x ys = Inr zs" "sorted_wrt entry_le ys"
  shows "filter (\<lambda>r. entry_key r = k) zs = filter (\<lambda>r. entry_key r = k) (ys @ [x])"
proof -
  from insert_requirement_split [OF assms(1,2)] obtain ys1 ys2 where
    s: "ys = ys1 @ ys2" "zs = ys1 @ x # ys2"
    "ys2 \<noteq> [] \<longrightarrow> \<not> is_marker (hd ys2) \<and> name_less x (hd ys2)"
    by blast
  from assms(3) s(1) have sorted2: "sorted_wrt entry_le ys2"
    by (auto simp: sorted_wrt_append)
  have greater: "\<forall>y \<in> set ys2. \<not> is_marker y \<and> name_less x y"
  proof (cases "ys2 = []")
    case True then show ?thesis by simp
  next
    case False
    with s(3) greater_tail [OF sorted2 False] show ?thesis by blast
  qed
  show ?thesis
  proof (cases "entry_key x = k")
    case True
    have "\<forall>y \<in> set ys2. entry_key y \<noteq> k"
    proof
      fix y assume "y \<in> set ys2"
      with greater have "\<not> is_marker y" "name_less x y" by auto
      with name_less_key [of x y] True assms(1) show "entry_key y \<noteq> k"
        by (auto simp: entry_key_def)
    qed
    then have "filter (\<lambda>r. entry_key r = k) ys2 = []" by (simp add: filter_empty_conv)
    with s True show ?thesis by simp
  next
    case False
    with s show ?thesis by simp
  qed
qed

lemma insert_requirement_mset:
  "insert_requirement x ys = Inr zs \<Longrightarrow> mset zs = add_mset x (mset ys)"
  by (induction ys arbitrary: zs) (auto split: sum.splits bool.splits)

lemma insert_requirement_marker_first:
  assumes "\<not> is_marker x" "insert_requirement x ys = Inr zs" "marker_only_first ys"
  shows "marker_only_first zs"
proof (cases ys)
  case Nil
  with assms show ?thesis by (auto simp: marker_only_first_def)
next
  case (Cons y ys')
  show ?thesis
  proof (cases "lt x y")
    case (Inl e)
    with assms Cons show ?thesis by simp
  next
    case (Inr b)
    show ?thesis
    proof (cases b)
      case True
      with Inr assms(1) have "\<not> is_marker y" by (simp add: lt_True)
      moreover from True Inr assms Cons have "zs = x # y # ys'" by simp
      ultimately show ?thesis using assms(3) Cons by (simp add: marker_only_first_def)
    next
      case False
      with Inr assms Cons obtain zs' where
        ins: "insert_requirement x ys' = Inr zs'" and zs: "zs = y # zs'"
        by (auto split: sum.splits)
      from insert_requirement_mset [OF ins] have "set zs' = insert x (set ys')"
        by (metis set_mset_add_mset_insert set_mset_mset)
      with zs assms(1,3) Cons show ?thesis by (simp add: marker_only_first_def)
    qed
  qed
qed

lemma sort_into_correct:
  assumes "sort_into acc xs = Inr es" "\<forall>x \<in> set xs. \<not> is_marker x"
    "sorted_wrt entry_le acc" "marker_only_first acc"
  shows "sorted_wrt entry_le es \<and> marker_only_first es \<and> mset es = mset acc + mset xs \<and>
         (\<forall>k. filter (\<lambda>r. entry_key r = k) es = filter (\<lambda>r. entry_key r = k) (acc @ xs))"
  using assms
proof (induction xs arbitrary: acc)
  case Nil
  then show ?case by simp
next
  case (Cons x xs)
  from Cons.prems(1) obtain acc' where
    ins: "insert_requirement x acc = Inr acc'" and rest: "sort_into acc' xs = Inr es"
    by (auto split: sum.splits)
  from Cons.prems(2) have x: "\<not> is_marker x" and xs: "\<forall>x \<in> set xs. \<not> is_marker x" by simp_all
  note IH = Cons.IH [OF rest xs insert_requirement_sorted [OF x ins Cons.prems(3)]
      insert_requirement_marker_first [OF x ins Cons.prems(4)]]
  have "\<And>k. filter (\<lambda>r. entry_key r = k) (acc' @ xs) = filter (\<lambda>r. entry_key r = k) (acc @ x # xs)"
    using insert_requirement_stable [OF x ins Cons.prems(3)] by simp
  with IH insert_requirement_mset [OF ins] show ?case by simp
qed

lemma sorted_requirements_correct:
  assumes "sorted_requirements xs = Inr es" "marker_only_first xs"
  shows "sorted_wrt entry_le es \<and> marker_only_first es \<and> mset es = mset xs \<and>
         (\<forall>k. filter (\<lambda>r. entry_key r = k) es = filter (\<lambda>r. entry_key r = k) xs)"
proof (cases xs)
  case Nil
  with assms show ?thesis by (simp add: sorted_requirements_def)
next
  case (Cons x xs')
  with assms(1) have s: "sort_into [x] xs' = Inr es" by (simp add: sorted_requirements_def)
  from assms(2) Cons have "\<forall>x \<in> set xs'. \<not> is_marker x" by (simp add: marker_only_first_def)
  from sort_into_correct [OF s this] Cons show ?thesis by (simp add: marker_only_first_def)
qed

section \<open>The scan, one requirement at a time\<close>

lemma scan_line_Nil: "scan_line [] line = [add_line True new_Requirement line]"
  by (simp add: scan_line_def add_line_def set_last_def is_comment_line_def Let_def)

lemma scan_line_snoc:
  "scan_line (rs @ [r]) line =
     (if is_complete r then rs @ [r, add_line False new_Requirement line]
      else rs @ [add_line (rs = []) r line])"
  by (simp add: scan_line_def add_line_def set_last_def is_comment_line_def Let_def butlast_append)

lemma scan_snoc: "scan (ls @ [l]) = scan_line (scan ls) l"
  by (simp add: scan_def)

lemma scan_Nil: "scan [] = []"
  by (simp add: scan_def)

text \<open>An induction rule for the loop: the list is empty, or a requirement is added behind a
  complete one, or the last, open requirement takes the line.\<close>

lemma scan_line_cases:
  assumes "rs = [] \<Longrightarrow> P [add_line True new_Requirement line]"
    and "\<And>rs' r. rs = rs' @ [r] \<Longrightarrow> is_complete r \<Longrightarrow>
           P (rs' @ [r, add_line False new_Requirement line])"
    and "\<And>rs' r. rs = rs' @ [r] \<Longrightarrow> \<not> is_complete r \<Longrightarrow>
           P (rs' @ [add_line (rs' = []) r line])"
  shows "P (scan_line rs line)"
proof (cases rs rule: rev_cases)
  case Nil
  with assms(1) show ?thesis by (simp add: scan_line_Nil)
next
  case (snoc rs' r)
  with assms(2,3) [of rs' r] show ?thesis by (simp add: scan_line_snoc)
qed

lemma is_marker_complete: "is_marker r \<Longrightarrow> is_complete r"
  by (simp add: is_marker_def is_complete_def rstrip_chars_def endswith_def)

lemma strip_newline: "strip [CHR 0x0A] = []"
  by (simp add: strip_def lstrip_def rstrip_def is_space_def)

lemma strip_Nil: "strip [] = []"
  by (simp add: strip_def lstrip_def rstrip_def)

lemma append_eq_newline:
  assumes "old @ line = [CHR 0x0A]"
  shows "strip line = []"
proof -
  from assms have "line = [] \<or> line = [CHR 0x0A]"
    by (cases old) (auto simp: append_eq_Cons_conv)
  then show ?thesis by (auto simp: strip_newline strip_Nil)
qed

lemma add_line_not_marker:
  assumes "\<not> is_marker r" "\<not> only"
  shows "\<not> is_marker (add_line only r line)"
  using assms append_eq_newline [of _ line]
  by (auto simp: add_line_def is_marker_def append_value_def is_comment_line_def
      split: option.splits)

lemma new_Requirement_not_marker: "\<not> is_marker new_Requirement"
  by (simp add: is_marker_def new_Requirement_def)

lemma scan_line_marker_only_first:
  assumes "marker_only_first rs"
  shows "marker_only_first (scan_line rs line)"
proof (rule scan_line_cases)
  assume "rs = []"
  show "marker_only_first [add_line True new_Requirement line]"
    by (simp add: marker_only_first_def)
next
  fix rs' r assume rs: "rs = rs' @ [r]"
  from assms rs show "marker_only_first (rs' @ [r, add_line False new_Requirement line])"
    by (cases rs') (auto simp: marker_only_first_def add_line_not_marker new_Requirement_not_marker)
next
  fix rs' r assume rs: "rs = rs' @ [r]"
  from assms rs show "marker_only_first (rs' @ [add_line (rs' = []) r line])"
    by (cases rs') (auto simp: marker_only_first_def add_line_not_marker)
qed

lemma scan_marker_only_first: "marker_only_first (scan ls)"
proof (induction ls rule: rev_induct)
  case Nil
  show ?case by (simp add: scan_Nil marker_only_first_def)
next
  case (snoc l ls)
  then show ?case by (simp add: scan_snoc scan_line_marker_only_first)
qed

lemma marker_only_first_butlast: "marker_only_first rs \<Longrightarrow> marker_only_first (butlast rs)"
  by (cases rs) (auto simp: marker_only_first_def dest: in_set_butlastD)

lemma marker_only_first_filter: "marker_only_first rs \<Longrightarrow> marker_only_first (filter P rs)"
proof (cases rs)
  case Nil
  then show ?thesis by (simp add: marker_only_first_def)
next
  case (Cons r rs')
  assume "marker_only_first rs"
  with Cons have "\<forall>x \<in> set (filter P rs'). \<not> is_marker x" by (simp add: marker_only_first_def)
  moreover have "set (tl (filter P rs')) \<subseteq> set (filter P rs')" by (cases "filter P rs'") auto
  ultimately show ?thesis using Cons by (auto simp: marker_only_first_def)
qed

lemma pop_rest_marker_only_first:
  "pop_rest (scan ls) = Inr (reqs, rest) \<Longrightarrow> marker_only_first (remove_blacklisted reqs)"
  using scan_marker_only_first [of ls]
  by (auto simp: pop_rest_def remove_blacklisted_def split: if_splits
      intro: marker_only_first_filter marker_only_first_butlast)

section \<open>What is written\<close>

lemma emit_result:
  assumes "emit require_version es after missing_versions = Inr (after', missing_versions')"
  shows "after' = after @ concat (map serialize es) \<and>
         (\<forall>r \<in> set es. \<exists>v. val r = Some v \<and> v \<noteq> []) \<and>
         missing_versions' = missing_versions @
           (if require_version then map (the \<circ> val) (filter lacks_version es) else [])"
  using assms
proof (induction es arbitrary: after missing_versions)
  case Nil
  then show ?case by simp
next
  case (Cons r es)
  from Cons.prems obtain v where v: "val r = Some v" "v \<noteq> []"
    by (auto split: option.splits if_splits)
  show ?case
  proof (cases require_version)
    case False
    with Cons.prems v have
      "emit require_version es (after @ comments r @ [v]) missing_versions
         = Inr (after', missing_versions')" by simp
    from Cons.IH [OF this] v False show ?thesis by (simp add: serialize_def)
  next
    case True
    with Cons.prems v obtain inc where inc: "is_include r = Inr inc"
      by (auto split: sum.splits)
    with v have inc_eq: "inc = startswith v ''-r''"
      by (auto simp: is_include_def split: if_splits)
    from True Cons.prems v inc have
      "emit require_version es (after @ comments r @ [v])
         (if \<not> inc \<and> \<not> has_version r then missing_versions @ [v] else missing_versions)
         = Inr (after', missing_versions')" by simp
    from Cons.IH [OF this] v True inc_eq show ?thesis
      by (auto simp: serialize_def lacks_version_def)
  qed
qed

lemma corrected_structure:
  assumes "corrected ls require_version = Inr (after, missing_versions)"
  shows "\<exists>reqs rest es.
           pop_rest (scan ls) = Inr (reqs, rest) \<and>
           sorted_requirements (remove_blacklisted reqs) = Inr es \<and>
           after = concat (map serialize es) @ rest \<and>
           (\<forall>r \<in> set es. \<exists>v. val r = Some v \<and> v \<noteq> []) \<and>
           missing_versions =
             (if require_version then map (the \<circ> val) (filter lacks_version es) else [])"
proof -
  from assms obtain reqs rest where p: "pop_rest (scan ls) = Inr (reqs, rest)"
    by (auto simp: corrected_def split: sum.splits)
  with assms obtain es where s: "sorted_requirements (remove_blacklisted reqs) = Inr es"
    by (auto simp: corrected_def split: sum.splits)
  with assms p obtain after0 where
    e: "emit require_version es [] [] = Inr (after0, missing_versions)" and a: "after = after0 @ rest"
    by (auto simp: corrected_def split: sum.splits)
  from emit_result [OF e] p s a show ?thesis by simp
qed

lemma fix_requirements_structure:
  assumes "fix_requirements f require_version = Inr res" "strip f \<noteq> []"
  shows "\<exists>after missing_versions.
           corrected (add_newline (readlines f)) require_version = Inr (after, missing_versions) \<and>
           file_after f (calls res) = concat after \<and>
           printed res = (if missing_versions = [] then [] else [Missing_versions missing_versions])"
proof -
  from assms obtain after missing_versions where
    c: "corrected (add_newline (readlines f)) require_version = Inr (after, missing_versions)"
    by (auto simp: fix_requirements_def concat_readlines Let_def split: sum.splits)
  with assms have "file_after f (calls res) = concat after \<and>
      printed res = (if missing_versions = [] then [] else [Missing_versions missing_versions])"
    by (auto simp: fix_requirements_def concat_readlines Let_def file_after_rewrite file_after_nothing)
  with c show ?thesis by blast
qed

text \<open>
  Claim C1. Whenever \<open>fix_requirements\<close> returns on a file that is not blank, the file then
  holds the sorted entries, each as its comments and its value, and the comments of the end
  of the file. The sorted entries are the entries left by the blacklist filter, in an order
  in which every entry is \<open>entry_le\<close> every later one: the names do not decrease, and the
  top-of-file marker, if there is one, is the first entry. The sort is stable: the entries
  with any one key stand in the order they had before.
\<close>

theorem entries_sorted_by_name:
  assumes "fix_requirements f require_version = Inr res" "strip f \<noteq> []"
  shows "\<exists>reqs rest es.
           pop_rest (scan (add_newline (readlines f))) = Inr (reqs, rest) \<and>
           sorted_requirements (remove_blacklisted reqs) = Inr es \<and>
           file_after f (calls res) = concat (concat (map serialize es) @ rest) \<and>
           sorted_wrt entry_le es \<and>
           (\<forall>r \<in> set (tl es). \<not> is_marker r) \<and>
           mset es = mset (remove_blacklisted reqs) \<and>
           (\<forall>k. filter (\<lambda>r. entry_key r = k) es
                = filter (\<lambda>r. entry_key r = k) (remove_blacklisted reqs))"
proof -
  from fix_requirements_structure [OF assms] obtain after missing_versions where
    c: "corrected (add_newline (readlines f)) require_version = Inr (after, missing_versions)"
    and f: "file_after f (calls res) = concat after" by blast
  from corrected_structure [OF c] obtain reqs rest es where
    p: "pop_rest (scan (add_newline (readlines f))) = Inr (reqs, rest)"
    and s: "sorted_requirements (remove_blacklisted reqs) = Inr es"
    and a: "after = concat (map serialize es) @ rest" by blast
  from sorted_requirements_correct [OF s pop_rest_marker_only_first [OF p]]
  have "sorted_wrt entry_le es \<and> (\<forall>r \<in> set (tl es). \<not> is_marker r) \<and>
        mset es = mset (remove_blacklisted reqs) \<and>
        (\<forall>k. filter (\<lambda>r. entry_key r = k) es
                = filter (\<lambda>r. entry_key r = k) (remove_blacklisted reqs))"
    by (simp add: marker_only_first_def)
  with p s a f show ?thesis by blast
qed

theorem entries_sorted_by_name_witness:
  "\<exists>res. fix_requirements ''foo\<newline>bar\<newline>'' False = Inr res \<and> strip ''foo\<newline>bar\<newline>'' \<noteq> [] \<and>
     (\<exists>reqs rest es.
           pop_rest (scan (add_newline (readlines ''foo\<newline>bar\<newline>''))) = Inr (reqs, rest) \<and>
           sorted_requirements (remove_blacklisted reqs) = Inr es \<and>
           file_after ''foo\<newline>bar\<newline>'' (calls res) = concat (concat (map serialize es) @ rest) \<and>
           sorted_wrt entry_le es \<and>
           (\<forall>r \<in> set (tl es). \<not> is_marker r) \<and>
           mset es = mset (remove_blacklisted reqs) \<and>
           (\<forall>k. filter (\<lambda>r. entry_key r = k) es
                = filter (\<lambda>r. entry_key r = k) (remove_blacklisted reqs)))"
proof -
  have a: "fix_requirements ''foo\<newline>bar\<newline>'' False
     = Inr \<lparr>outcome = 1, calls = [Seek 0, Write ''bar\<newline>foo\<newline>'', Truncate], printed = []\<rparr>"
    by code_simp
  have b: "strip ''foo\<newline>bar\<newline>'' \<noteq> []" by code_simp
  from entries_sorted_by_name [OF a b] a b show ?thesis by blast
qed

section \<open>Lines\<close>

lemma split_lines_line:
  "CHR 0x0A \<notin> set b \<Longrightarrow>
     split_lines cur (b @ CHR 0x0A # s) = (cur @ b @ [CHR 0x0A]) # split_lines [] s"
  by (induction b arbitrary: cur) auto

lemma proper_lineE:
  assumes "proper_line l"
  obtains b where "l = b @ [CHR 0x0A]" "CHR 0x0A \<notin> set b"
proof -
  from assms have "l = butlast l @ [CHR 0x0A]" "CHR 0x0A \<notin> set (butlast l)"
    by (auto simp: proper_line_def dest: append_butlast_last_id)
  then show ?thesis using that by blast
qed

lemma readlines_proper_Cons:
  assumes "proper_line l"
  shows "readlines (l @ s) = l # readlines s"
proof -
  from assms obtain b where "l = b @ [CHR 0x0A]" "CHR 0x0A \<notin> set b" by (rule proper_lineE)
  then show ?thesis using split_lines_line [of b "[]" s] by (simp add: readlines_def)
qed

lemma readlines_Nil: "readlines [] = []"
  by (simp add: readlines_def)

lemma readlines_concat_proper:
  "\<forall>l \<in> set ls. proper_line l \<Longrightarrow> readlines (concat ls) = ls"
  by (induction ls) (simp_all add: readlines_Nil readlines_proper_Cons)

lemma split_lines_body:
  "CHR 0x0A \<notin> set cur \<Longrightarrow> l \<in> set (split_lines cur s) \<Longrightarrow>
     l \<noteq> [] \<and> CHR 0x0A \<notin> set (butlast l)"
proof (induction s arbitrary: cur)
  case Nil
  then show ?case by (auto split: if_splits dest: in_set_butlastD)
next
  case (Cons c s)
  show ?case
  proof (cases "c = CHR 0x0A")
    case True
    with Cons.prems have "l = cur @ [c] \<or> l \<in> set (split_lines [] s)" by simp
    then show ?thesis
    proof
      assume "l = cur @ [c]"
      with Cons.prems(1) show ?thesis by simp
    next
      assume "l \<in> set (split_lines [] s)"
      with Cons.IH [of "[]"] show ?thesis by simp
    qed
  next
    case False
    with Cons.prems have "l \<in> set (split_lines (cur @ [c]) s)" by simp
    with Cons.IH [of "cur @ [c]"] False Cons.prems(1) show ?thesis by simp
  qed
qed

lemma split_lines_butlast:
  "l \<in> set (butlast (split_lines cur s)) \<Longrightarrow> last l = CHR 0x0A"
proof (induction s arbitrary: cur)
  case Nil
  then show ?case by (auto split: if_splits)
next
  case (Cons c s)
  show ?case
  proof (cases "c = CHR 0x0A")
    case True
    with Cons.prems have "l = cur @ [c] \<or> l \<in> set (butlast (split_lines [] s))"
      by (auto split: if_splits)
    with Cons.IH [of "[]"] True show ?thesis by auto
  next
    case False
    with Cons.prems Cons.IH [of "cur @ [c]"] show ?thesis by simp
  qed
qed

lemma endswith_newline: "endswith l [CHR 0x0A] \<longleftrightarrow> l \<noteq> [] \<and> last l = CHR 0x0A"
proof (cases l rule: rev_cases)
  case Nil
  then show ?thesis by (simp add: endswith_def)
next
  case (snoc b c)
  then show ?thesis by (simp add: endswith_def)
qed

lemma add_newline_proper:
  assumes "l \<in> set (add_newline (readlines f))"
  shows "proper_line l"
proof -
  let ?ls = "readlines f"
  have body: "\<And>x. x \<in> set ?ls \<Longrightarrow> x \<noteq> [] \<and> CHR 0x0A \<notin> set (butlast x)"
    using split_lines_body [of "[]" _ f] by (simp add: readlines_def)
  have ends: "\<And>x. x \<in> set (butlast ?ls) \<Longrightarrow> last x = CHR 0x0A"
    using split_lines_butlast [of _ "[]" f] by (simp add: readlines_def)
  show ?thesis
  proof (cases "?ls = []")
    case True
    with assms show ?thesis by (simp add: add_newline_def)
  next
    case False
    then have split: "?ls = butlast ?ls @ [last ?ls]" by simp
    have inner: "\<And>x. x \<in> set (butlast ?ls) \<Longrightarrow> proper_line x"
      using body ends by (auto simp: proper_line_def dest: in_set_butlastD)
    from False have lastb: "last ?ls \<noteq> [] \<and> CHR 0x0A \<notin> set (butlast (last ?ls))"
      using body [of "last ?ls"] by simp
    show ?thesis
    proof (cases "endswith (last ?ls) [CHR 0x0A]")
      case True
      with lastb have "proper_line (last ?ls)" by (simp add: proper_line_def endswith_newline)
      moreover from True have "add_newline ?ls = ?ls" by (simp add: add_newline_def)
      ultimately show ?thesis using assms inner split
        by (metis Un_iff empty_iff insert_iff list.set(1) list.simps(15) set_append)
    next
      case no: False
      with lastb have "last (last ?ls) \<noteq> CHR 0x0A" by (simp add: endswith_newline)
      with lastb have "CHR 0x0A \<notin> set (last ?ls)"
        by (metis append_butlast_last_id Un_iff empty_iff insert_iff list.set(1) list.simps(15) set_append)
      then have "proper_line (last ?ls @ [CHR 0x0A])" by (simp add: proper_line_def)
      moreover from no False have "add_newline ?ls = butlast ?ls @ [last ?ls @ [CHR 0x0A]]"
        by (simp add: add_newline_def)
      ultimately show ?thesis using assms inner by auto
    qed
  qed
qed

section \<open>The lines of the requirements\<close>

lemma readlines_append_line:
  assumes "\<forall>l \<in> set (readlines v). proper_line l" "proper_line line"
  shows "readlines (v @ line) = readlines v @ [line]"
proof -
  have "v @ line = concat (readlines v @ [line])" by (simp add: concat_readlines)
  moreover from assms have "\<forall>l \<in> set (readlines v @ [line]). proper_line l" by simp
  ultimately show ?thesis using readlines_concat_proper by metis
qed

lemma readlines_proper_line: "proper_line line \<Longrightarrow> readlines line = [line]"
  using readlines_proper_Cons [of line "[]"] by (simp add: readlines_Nil)

lemma proper_newline: "proper_line [CHR 0x0A]"
  by (simp add: proper_line_def)

lemma add_line_marker_step:
  assumes "marker_step only r line" "entry_ok r"
  shows "lines_of (add_line only r line) = comments r @ [[CHR 0x0A]]"
    and "entry_ok (add_line only r line)"
    and "is_marker (add_line only r line)"
  using assms
  by (simp_all add: marker_step_def add_line_def lines_of_def entry_ok_def is_marker_def
      readlines_proper_line proper_newline)

lemma add_line_plain:
  assumes "\<not> marker_step only r line" "entry_ok r" "proper_line line"
  shows "mset (lines_of (add_line only r line)) = add_mset line (mset (lines_of r))"
    and "entry_ok (add_line only r line)"
proof -
  have "add_line only r line = r\<lparr>comments := comments r @ [line]\<rparr> \<or>
      add_line only r line = append_value r line"
    using assms(1) by (simp add: add_line_def marker_step_def)
  then consider (c) "add_line only r line = r\<lparr>comments := comments r @ [line]\<rparr>"
    | (v) "add_line only r line = append_value r line"
    by blast
  then have "mset (lines_of (add_line only r line)) = add_mset line (mset (lines_of r)) \<and>
      entry_ok (add_line only r line)"
  proof cases
    case c
    with assms(2,3) show ?thesis by (simp add: lines_of_def entry_ok_def)
  next
    case v
    show ?thesis
    proof (cases "val r")
      case None
      with v assms(2,3) show ?thesis
        by (simp add: lines_of_def entry_ok_def append_value_def readlines_proper_line)
    next
      case (Some old)
      with assms(2) have "\<forall>l \<in> set (readlines old). proper_line l" by (simp add: entry_ok_def)
      from readlines_append_line [OF this assms(3)] this v Some assms(2,3) show ?thesis
        by (simp add: lines_of_def entry_ok_def append_value_def)
    qed
  qed
  then show "mset (lines_of (add_line only r line)) = add_mset line (mset (lines_of r))"
    and "entry_ok (add_line only r line)" by simp_all
qed

lemma add_line_plain_not_marker:
  assumes "\<not> marker_step only r line" "\<not> is_marker r"
  shows "\<not> is_marker (add_line only r line)"
  using assms append_eq_newline [of _ line]
  by (auto simp: add_line_def marker_step_def is_marker_def append_value_def is_comment_line_def
      split: option.splits)

lemma entry_ok_new: "entry_ok new_Requirement"
  by (simp add: entry_ok_def new_Requirement_def)

lemma lines_of_new: "lines_of new_Requirement = []"
  by (simp add: lines_of_def new_Requirement_def)

lemma not_marker_step_new: "\<not> marker_step only new_Requirement line"
  by (simp add: marker_step_def first_comment_is_hash_def new_Requirement_def)

lemma scan_line_inv:
  assumes ok: "\<forall>r \<in> set rs. entry_ok r"
    and sub: "mset (concat (map lines_of rs)) \<subseteq># M + marker_lines rs"
    and line: "proper_line line"
  shows "(\<forall>r \<in> set (scan_line rs line). entry_ok r) \<and>
         mset (concat (map lines_of (scan_line rs line)))
           \<subseteq># add_mset line M + marker_lines (scan_line rs line)"
proof (rule scan_line_cases)
  assume "rs = []"
  let ?r = "add_line True new_Requirement line"
  from add_line_plain [OF not_marker_step_new entry_ok_new line, of True]
  have "mset (lines_of ?r) = {#line#}" "entry_ok ?r" by (simp_all add: lines_of_new)
  then show "(\<forall>r \<in> set [?r]. entry_ok r) \<and>
      mset (concat (map lines_of [?r])) \<subseteq># add_mset line M + marker_lines [?r]"
    by simp
next
  fix rs' r assume rs: "rs = rs' @ [r]" and "is_complete r"
  let ?r = "add_line False new_Requirement line"
  from add_line_plain [OF not_marker_step_new entry_ok_new line, of False]
  have n: "mset (lines_of ?r) = {#line#}" "entry_ok ?r" by (simp_all add: lines_of_new)
  have m: "marker_lines (rs' @ [r, ?r]) = marker_lines rs"
    using rs by (cases rs') (simp_all add: marker_lines_def)
  from sub rs have "add_mset line (mset (concat (map lines_of rs')) + mset (lines_of r))
      \<subseteq># add_mset line M + marker_lines rs"
    by simp
  with n m ok rs show "(\<forall>r \<in> set (rs' @ [r, ?r]). entry_ok r) \<and>
      mset (concat (map lines_of (rs' @ [r, ?r]))) \<subseteq># add_mset line M + marker_lines (rs' @ [r, ?r])"
    by (simp add: ac_simps)
next
  fix rs' r assume rs: "rs = rs' @ [r]" and unfinished: "\<not> is_complete r"
  let ?only = "rs' = []"
  let ?r = "add_line ?only r line"
  from ok rs have okr: "entry_ok r" by simp
  from unfinished have nm: "\<not> is_marker r" using is_marker_complete by blast
  show "(\<forall>r \<in> set (rs' @ [?r]). entry_ok r) \<and>
      mset (concat (map lines_of (rs' @ [?r]))) \<subseteq># add_mset line M + marker_lines (rs' @ [?r])"
  proof (cases "marker_step ?only r line")
    case True
    then have only: "rs' = []" by (simp add: marker_step_def)
    note ms = add_line_marker_step [OF True okr]
    have "mset (comments r) \<subseteq># mset (lines_of r)" by (simp add: lines_of_def)
    moreover from sub rs only nm have "mset (lines_of r) \<subseteq># M" by (simp add: marker_lines_def)
    ultimately have "mset (comments r) \<subseteq># M" by (rule subset_mset.order_trans)
    moreover have "M \<subseteq># add_mset line M" by simp
    ultimately have "mset (comments r) \<subseteq># add_mset line M" by (rule subset_mset.order_trans)
    then have "add_mset [CHR 0x0A] (mset (comments r)) \<subseteq># add_mset line (add_mset [CHR 0x0A] M)"
      by (simp add: add_mset_commute [of line])
    with ms only show ?thesis by (simp add: marker_lines_def)
  next
    case False
    note pl = add_line_plain [OF False okr line]
    have m: "marker_lines (rs' @ [?r]) = marker_lines rs"
      using rs nm add_line_plain_not_marker [OF False nm]
      by (cases rs') (simp_all add: marker_lines_def)
    from sub rs have "add_mset line (mset (concat (map lines_of rs')) + mset (lines_of r))
        \<subseteq># add_mset line M + marker_lines rs"
      by simp
    with pl m ok rs show ?thesis by (simp add: ac_simps)
  qed
qed

lemma scan_inv:
  assumes "\<forall>l \<in> set ls. proper_line l"
  shows "(\<forall>r \<in> set (scan ls). entry_ok r) \<and>
         mset (concat (map lines_of (scan ls))) \<subseteq># mset ls + marker_lines (scan ls)"
  using assms
proof (induction ls rule: rev_induct)
  case Nil
  show ?case by (simp add: scan_Nil)
next
  case (snoc l ls)
  then have "(\<forall>r \<in> set (scan ls). entry_ok r) \<and>
      mset (concat (map lines_of (scan ls))) \<subseteq># mset ls + marker_lines (scan ls)"
    and "proper_line l" by simp_all
  with scan_line_inv [of "scan ls" "mset ls" l] show ?case by (simp add: scan_snoc)
qed

lemma mset_concat_map: "mset (concat (map f xs)) = (\<Sum>x \<in># mset xs. mset (f x))"
  by (induction xs) simp_all

lemma mset_concat_map_cong:
  "mset xs = mset ys \<Longrightarrow> mset (concat (map f xs)) = mset (concat (map f ys))"
  by (simp add: mset_concat_map)

lemma mset_concat_map_filter:
  "mset (concat (map f (filter P xs))) + mset (concat (map f (filter (\<lambda>x. \<not> P x) xs)))
     = mset (concat (map f xs))"
  by (induction xs) simp_all

lemma concat_serialize: "concat (serialize r) = concat (lines_of r)"
  by (cases "val r") (simp_all add: serialize_def lines_of_def concat_readlines)

lemma concat_concat_serialize:
  "concat (concat (map serialize es)) = concat (concat (map lines_of es))"
  by (induction es) (simp_all add: concat_serialize)

lemma pop_rest_lines:
  assumes "pop_rest rs = Inr (reqs, rest)"
  shows "mset (concat (map lines_of reqs)) + mset rest = mset (concat (map lines_of rs))"
    and "set reqs \<subseteq> set rs"
    and "\<forall>l \<in> set rest. \<exists>r \<in> set rs. l \<in> set (comments r)"
proof -
  from assms have ne: "rs \<noteq> []" by (auto simp: pop_rest_def split: if_splits)
  then have split: "rs = butlast rs @ [last rs]" by simp
  show "mset (concat (map lines_of reqs)) + mset rest = mset (concat (map lines_of rs))"
  proof (cases "val (last rs)")
    case None
    with assms ne have "reqs = butlast rs" "rest = comments (last rs)"
      by (simp_all add: pop_rest_def)
    moreover from None have "lines_of (last rs) = comments (last rs)" by (simp add: lines_of_def)
    ultimately show ?thesis using split
      by (metis (no_types, lifting) append_Nil2 concat.simps concat_append list.simps(8,9)
          map_append mset_append)
  next
    case (Some v)
    with assms ne show ?thesis by (simp add: pop_rest_def)
  qed
  from assms ne show "set reqs \<subseteq> set rs"
    by (auto simp: pop_rest_def split: if_splits dest: in_set_butlastD)
  from assms ne last_in_set [OF ne] show "\<forall>l \<in> set rest. \<exists>r \<in> set rs. l \<in> set (comments r)"
    by (auto simp: pop_rest_def split: if_splits)
qed

lemma entry_ok_lines: "entry_ok r \<Longrightarrow> l \<in> set (lines_of r) \<Longrightarrow> proper_line l"
  by (cases "val r") (auto simp: entry_ok_def lines_of_def)

text \<open>
  Claim C10. Whenever \<open>fix_requirements\<close> returns on a file that is not blank, the physical
  lines of the file afterwards are, counted with multiplicity, lines of the file before
  (its last line ended by a line feed if it had none), but for at most one line \<^verbatim>\<open>"\n"\<close>, the
  value of the top-of-file marker.
\<close>

theorem output_lines_are_input_lines:
  assumes "fix_requirements f require_version = Inr res" "strip f \<noteq> []"
  shows "mset (readlines (file_after f (calls res)))
           \<subseteq># mset (add_newline (readlines f)) + {#[CHR 0x0A]#}"
proof -
  let ?ls = "add_newline (readlines f)"
  from fix_requirements_structure [OF assms] obtain after missing_versions where
    c: "corrected ?ls require_version = Inr (after, missing_versions)"
    and fa: "file_after f (calls res) = concat after" by blast
  from corrected_structure [OF c] obtain reqs rest es where
    p: "pop_rest (scan ?ls) = Inr (reqs, rest)"
    and s: "sorted_requirements (remove_blacklisted reqs) = Inr es"
    and a: "after = concat (map serialize es) @ rest" by blast
  have proper: "\<forall>l \<in> set ?ls. proper_line l" using add_newline_proper by blast
  from scan_inv [OF proper] have ok: "\<forall>r \<in> set (scan ?ls). entry_ok r"
    and sub: "mset (concat (map lines_of (scan ?ls))) \<subseteq># mset ?ls + marker_lines (scan ?ls)"
    by simp_all
  from sorted_requirements_correct [OF s pop_rest_marker_only_first [OF p]]
  have ms: "mset es = mset (remove_blacklisted reqs)" by simp
  then have "set es = set (remove_blacklisted reqs)" by (metis set_mset_mset)
  with pop_rest_lines(2) [OF p] have es_sub: "set es \<subseteq> set (scan ?ls)"
    by (auto simp: remove_blacklisted_def)
  let ?X = "concat (map lines_of es) @ rest"
  have es_proper: "\<forall>l \<in> set (concat (map lines_of es)). proper_line l"
    using es_sub ok entry_ok_lines by auto
  from pop_rest_lines(3) [OF p] ok have rest_proper: "\<forall>l \<in> set rest. proper_line l"
    by (auto simp: entry_ok_def)
  from es_proper rest_proper have "\<forall>l \<in> set ?X. proper_line l" by auto
  then have "readlines (concat ?X) = ?X" by (rule readlines_concat_proper)
  moreover have "concat after = concat ?X" by (simp add: a concat_concat_serialize)
  ultimately have rl: "readlines (file_after f (calls res)) = ?X" by (simp add: fa)
  have "mset (concat (map lines_of es)) = mset (concat (map lines_of (remove_blacklisted reqs)))"
    using ms by (rule mset_concat_map_cong)
  also have "\<dots> \<subseteq># mset (concat (map lines_of reqs))"
    using mset_concat_map_filter [of lines_of "\<lambda>req. val req \<noteq> Some blacklisted" reqs]
    by (metis mset_subset_eq_add_left remove_blacklisted_def)
  finally have "mset ?X \<subseteq># mset (concat (map lines_of reqs)) + mset rest" by simp
  also have "\<dots> = mset (concat (map lines_of (scan ?ls)))" by (rule pop_rest_lines(1) [OF p])
  also note sub
  also have "mset ?ls + marker_lines (scan ?ls) \<subseteq># mset ?ls + {#[CHR 0x0A]#}"
    by (simp add: marker_lines_def)
  finally show ?thesis by (simp add: rl)
qed

theorem output_lines_are_input_lines_witness:
  "\<exists>res. fix_requirements ''#c\<newline>  \<newline>foo\<newline>bar'' False = Inr res \<and>
     strip ''#c\<newline>  \<newline>foo\<newline>bar'' \<noteq> [] \<and>
     mset (readlines (file_after ''#c\<newline>  \<newline>foo\<newline>bar'' (calls res)))
           \<subseteq># mset (add_newline (readlines ''#c\<newline>  \<newline>foo\<newline>bar'')) + {#[CHR 0x0A]#}"
proof -
  have a: "fix_requirements ''#c\<newline>  \<newline>foo\<newline>bar'' False
     = Inr \<lparr>outcome = 1, calls = [Seek 0, Write ''#c\<newline>\<newline>bar\<newline>foo\<newline>'', Truncate], printed = []\<rparr>"
    by code_simp
  have b: "strip ''#c\<newline>  \<newline>foo\<newline>bar'' \<noteq> []" by code_simp
  from output_lines_are_input_lines [OF a b] a b show ?thesis by blast
qed

section \<open>Comments\<close>

lemma comments_add_line:
  "comments (add_line only r line) = comments r \<or>
   (comments (add_line only r line) = comments r @ [line] \<and> is_comment_line line)"
  by (cases "val r") (auto simp: add_line_def append_value_def is_comment_line_def)

lemma comments_new: "comments new_Requirement = []"
  by (simp add: new_Requirement_def)

lemma comments_ok_add_line:
  assumes "comments_ok ls r"
  shows "comments_ok (ls @ [line]) (add_line only r line)"
proof -
  from assms have s: "subseq (comments r) (ls @ [line])"
    by (simp add: comments_ok_def list_emb_prefix)
  from assms have s': "subseq (comments r @ [line]) (ls @ [line])"
    by (simp add: comments_ok_def list_emb_append_mono)
  from comments_add_line [of only r line] s s' assms show ?thesis
    by (auto simp: comments_ok_def)
qed

lemma comments_ok_later: "comments_ok ls r \<Longrightarrow> comments_ok (ls @ [line]) r"
  by (simp add: comments_ok_def list_emb_prefix)

lemma comments_ok_new: "comments_ok ls new_Requirement"
  by (simp add: comments_ok_def comments_new)

lemma scan_comments_ok: "\<forall>r \<in> set (scan ls). comments_ok ls r"
proof (induction ls rule: rev_induct)
  case Nil
  show ?case by (simp add: scan_Nil)
next
  case (snoc l ls)
  show ?case unfolding scan_snoc
  proof (rule scan_line_cases)
    show "\<forall>r \<in> set [add_line True new_Requirement l]. comments_ok (ls @ [l]) r"
      using comments_ok_add_line [OF comments_ok_new] by simp
  next
    fix rs' r assume "scan ls = rs' @ [r]"
    with snoc show "\<forall>x \<in> set (rs' @ [r, add_line False new_Requirement l]). comments_ok (ls @ [l]) x"
      using comments_ok_add_line [OF comments_ok_new] by (auto intro: comments_ok_later)
  next
    fix rs' r assume "scan ls = rs' @ [r]"
    with snoc show "\<forall>x \<in> set (rs' @ [add_line (rs' = []) r l]). comments_ok (ls @ [l]) x"
      by (auto intro: comments_ok_later comments_ok_add_line)
  qed
qed

lemma blacklisted_not_comment: "\<not> is_comment_line blacklisted"
  by code_simp













section \<open>Entries\<close>

lemma fix_requirements_entries:
  assumes "fix_requirements f require_version = Inr res" "strip f \<noteq> []"
  shows "\<exists>reqs rest es after missing_versions.
           pop_rest (scan (add_newline (readlines f))) = Inr (reqs, rest) \<and>
           sorted_requirements (remove_blacklisted reqs) = Inr es \<and>
           corrected (add_newline (readlines f)) require_version = Inr (after, missing_versions) \<and>
           file_after f (calls res) = concat after \<and>
           after = concat (map serialize es) @ rest \<and>
           mset es = mset (remove_blacklisted reqs) \<and>
           (\<forall>r \<in> set es. \<exists>v. val r = Some v \<and> v \<noteq> [])"
proof -
  from fix_requirements_structure [OF assms] obtain after missing_versions where
    c: "corrected (add_newline (readlines f)) require_version = Inr (after, missing_versions)"
    and fa: "file_after f (calls res) = concat after" by blast
  from corrected_structure [OF c] obtain reqs rest es where
    p: "pop_rest (scan (add_newline (readlines f))) = Inr (reqs, rest)"
    and s: "sorted_requirements (remove_blacklisted reqs) = Inr es"
    and a: "after = concat (map serialize es) @ rest"
    and v: "\<forall>r \<in> set es. \<exists>v. val r = Some v \<and> v \<noteq> []" by blast
  from sorted_requirements_correct [OF s pop_rest_marker_only_first [OF p]]
  have "mset es = mset (remove_blacklisted reqs)" by simp
  with p s c fa a v show ?thesis by blast
qed

text \<open>
  Claim C4. Whenever \<open>fix_requirements\<close> returns on a file that is not blank, the entries
  written are those of the scan whose value is not \<^verbatim>\<open>pkg-resources==0.0.0\<close> and a line feed,
  wherever they stood, and none of the pieces written, comment or value, is that line.
\<close>

theorem blacklisted_entry_absent:
  assumes "fix_requirements f require_version = Inr res" "strip f \<noteq> []"
  shows "\<exists>reqs rest es after missing_versions.
           pop_rest (scan (add_newline (readlines f))) = Inr (reqs, rest) \<and>
           corrected (add_newline (readlines f)) require_version = Inr (after, missing_versions) \<and>
           file_after f (calls res) = concat after \<and>
           after = concat (map serialize es) @ rest \<and>
           mset es = mset (filter (\<lambda>req. val req \<noteq> Some blacklisted) reqs) \<and>
           (\<forall>r \<in> set es. val r \<noteq> Some blacklisted) \<and>
           blacklisted \<notin> set after"
proof -
  let ?ls = "add_newline (readlines f)"
  from fix_requirements_entries [OF assms] obtain reqs rest es after missing_versions where
    p: "pop_rest (scan ?ls) = Inr (reqs, rest)"
    and c: "corrected ?ls require_version = Inr (after, missing_versions)"
    and fa: "file_after f (calls res) = concat after"
    and a: "after = concat (map serialize es) @ rest"
    and ms: "mset es = mset (remove_blacklisted reqs)" by blast
  from ms have set_es: "set es = set (remove_blacklisted reqs)" by (metis set_mset_mset)
  then have nb: "\<forall>r \<in> set es. val r \<noteq> Some blacklisted" by (simp add: remove_blacklisted_def)
  have com: "\<forall>r \<in> set (scan ?ls). \<forall>c \<in> set (comments r). c \<noteq> blacklisted"
    using scan_comments_ok [of ?ls] blacklisted_not_comment by (auto simp: comments_ok_def)
  from set_es pop_rest_lines(2) [OF p] have "set es \<subseteq> set (scan ?ls)"
    by (auto simp: remove_blacklisted_def)
  with com nb have "\<forall>r \<in> set es. blacklisted \<notin> set (serialize r)"
    by (auto simp: serialize_def split: option.splits)
  moreover from pop_rest_lines(3) [OF p] com have "blacklisted \<notin> set rest" by blast
  ultimately have "blacklisted \<notin> set after" by (auto simp: a)
  with p c fa a ms nb show ?thesis unfolding remove_blacklisted_def by blast
qed

theorem blacklisted_entry_absent_witness:
  "\<exists>res. fix_requirements ''bar\<newline>pkg-resources==0.0.0\<newline>foo\<newline>'' False = Inr res \<and>
     strip ''bar\<newline>pkg-resources==0.0.0\<newline>foo\<newline>'' \<noteq> [] \<and>
     (\<exists>reqs rest es after missing_versions.
           pop_rest (scan (add_newline (readlines ''bar\<newline>pkg-resources==0.0.0\<newline>foo\<newline>'')))
             = Inr (reqs, rest) \<and>
           corrected (add_newline (readlines ''bar\<newline>pkg-resources==0.0.0\<newline>foo\<newline>'')) False
             = Inr (after, missing_versions) \<and>
           file_after ''bar\<newline>pkg-resources==0.0.0\<newline>foo\<newline>'' (calls res) = concat after \<and>
           after = concat (map serialize es) @ rest \<and>
           mset es = mset (filter (\<lambda>req. val req \<noteq> Some blacklisted) reqs) \<and>
           (\<forall>r \<in> set es. val r \<noteq> Some blacklisted) \<and>
           blacklisted \<notin> set after)"
proof -
  have a: "fix_requirements ''bar\<newline>pkg-resources==0.0.0\<newline>foo\<newline>'' False
     = Inr \<lparr>outcome = 1, calls = [Seek 0, Write ''bar\<newline>foo\<newline>'', Truncate], printed = []\<rparr>"
    by code_simp
  have b: "strip ''bar\<newline>pkg-resources==0.0.0\<newline>foo\<newline>'' \<noteq> []" by code_simp
  from blacklisted_entry_absent [OF a b] a b show ?thesis by blast
qed

text \<open>
  Claim C9. The pieces written are the comments and values of all the entries of the scan and
  the comments of the end of the file, less the comments and the value of every blacklisted
  entry: a blacklisted entry takes its comments with it.
\<close>

theorem blacklisted_comments_removed:
  assumes "fix_requirements f require_version = Inr res" "strip f \<noteq> []"
  shows "\<exists>reqs rest after missing_versions.
           pop_rest (scan (add_newline (readlines f))) = Inr (reqs, rest) \<and>
           corrected (add_newline (readlines f)) require_version = Inr (after, missing_versions) \<and>
           file_after f (calls res) = concat after \<and>
           mset after
             + mset (concat (map serialize (filter (\<lambda>req. val req = Some blacklisted) reqs)))
             = mset (concat (map serialize reqs)) + mset rest"
proof -
  let ?ls = "add_newline (readlines f)"
  from fix_requirements_entries [OF assms] obtain reqs rest es after missing_versions where
    p: "pop_rest (scan ?ls) = Inr (reqs, rest)"
    and c: "corrected ?ls require_version = Inr (after, missing_versions)"
    and fa: "file_after f (calls res) = concat after"
    and a: "after = concat (map serialize es) @ rest"
    and ms: "mset es = mset (remove_blacklisted reqs)" by blast
  have "mset (concat (map serialize es)) = mset (concat (map serialize (remove_blacklisted reqs)))"
    using ms by (rule mset_concat_map_cong)
  moreover have "mset (concat (map serialize (filter (\<lambda>req. val req = Some blacklisted) reqs)))
      + mset (concat (map serialize (remove_blacklisted reqs))) = mset (concat (map serialize reqs))"
    unfolding remove_blacklisted_def
    using mset_concat_map_filter [of serialize "\<lambda>req. val req = Some blacklisted" reqs] by simp
  ultimately have "mset after
             + mset (concat (map serialize (filter (\<lambda>req. val req = Some blacklisted) reqs)))
             = mset (concat (map serialize reqs)) + mset rest"
    by (simp add: a ac_simps)
  with p c fa show ?thesis by blast
qed

theorem blacklisted_comments_removed_witness:
  "\<exists>res. fix_requirements ''bar\<newline>#c\<newline>pkg-resources==0.0.0\<newline>foo\<newline>'' False = Inr res \<and>
     strip ''bar\<newline>#c\<newline>pkg-resources==0.0.0\<newline>foo\<newline>'' \<noteq> [] \<and>
     (\<exists>reqs rest after missing_versions.
           pop_rest (scan (add_newline (readlines ''bar\<newline>#c\<newline>pkg-resources==0.0.0\<newline>foo\<newline>'')))
             = Inr (reqs, rest) \<and>
           corrected (add_newline (readlines ''bar\<newline>#c\<newline>pkg-resources==0.0.0\<newline>foo\<newline>'')) False
             = Inr (after, missing_versions) \<and>
           file_after ''bar\<newline>#c\<newline>pkg-resources==0.0.0\<newline>foo\<newline>'' (calls res) = concat after \<and>
           mset after
             + mset (concat (map serialize (filter (\<lambda>req. val req = Some blacklisted) reqs)))
             = mset (concat (map serialize reqs)) + mset rest)"
proof -
  have a: "fix_requirements ''bar\<newline>#c\<newline>pkg-resources==0.0.0\<newline>foo\<newline>'' False
     = Inr \<lparr>outcome = 1, calls = [Seek 0, Write ''bar\<newline>foo\<newline>'', Truncate], printed = []\<rparr>"
    by code_simp
  have b: "strip ''bar\<newline>#c\<newline>pkg-resources==0.0.0\<newline>foo\<newline>'' \<noteq> []" by code_simp
  from blacklisted_comments_removed [OF a b] a b show ?thesis by blast
qed




section \<open>Versions\<close>

lemma version_char_not_space: "is_version_char c \<Longrightarrow> \<not> is_space c"
  by (auto simp: is_version_char_def is_space_def)

lemma newline_not_version_char: "\<not> is_version_char (CHR 0x0A)"
  by (simp add: is_version_char_def)

lemma version_tail_Some:
  assumes "version_tail t = Some ver"
  shows "\<exists>nl. t = ver @ nl \<and> ver \<noteq> [] \<and> (\<forall>c \<in> set ver. is_version_char c) \<and>
           (nl = [] \<or> nl = [CHR 0x0A])"
proof -
  from assms have v: "ver = takeWhile is_version_char t" "ver \<noteq> []"
    and r: "dropWhile is_version_char t = [] \<or> dropWhile is_version_char t = [CHR 0x0A]"
    by (auto simp: version_tail_def Let_def split: if_splits)
  have "t = takeWhile is_version_char t @ dropWhile is_version_char t" by simp
  with v r have "t = ver @ dropWhile is_version_char t" by simp
  moreover from v have "\<forall>c \<in> set ver. is_version_char c" by (auto dest: set_takeWhileD)
  ultimately show ?thesis using v r by blast
qed

lemma version_tail_intro:
  assumes "ver \<noteq> []" "\<forall>c \<in> set ver. is_version_char c" "nl = [] \<or> nl = [CHR 0x0A]"
  shows "version_tail (ver @ nl) = Some ver"
proof -
  from assms(3) have nl: "takeWhile is_version_char nl = []" "dropWhile is_version_char nl = nl"
    by (auto simp: newline_not_version_char)
  from assms(2) have "takeWhile is_version_char (ver @ nl) = ver @ takeWhile is_version_char nl"
    "dropWhile is_version_char (ver @ nl) = dropWhile is_version_char nl"
    by (simp_all add: takeWhile_append2 dropWhile_append2)
  with nl assms(1,3) show ?thesis by (auto simp: version_tail_def)
qed

lemma after_operator_Some:
  assumes "after_operator t = Some ver"
  shows "\<exists>ws nl. t = ws @ ver @ nl \<and> (\<forall>c \<in> set ws. is_space c) \<and> ver \<noteq> [] \<and>
           (\<forall>c \<in> set ver. is_version_char c) \<and> (nl = [] \<or> nl = [CHR 0x0A])"
proof -
  from assms have "version_tail (dropWhile is_space t) = Some ver" by (simp add: after_operator_def)
  from version_tail_Some [OF this] obtain nl where
    nl: "dropWhile is_space t = ver @ nl" "ver \<noteq> []" "\<forall>c \<in> set ver. is_version_char c"
    "nl = [] \<or> nl = [CHR 0x0A]" by blast
  have "t = takeWhile is_space t @ dropWhile is_space t" by simp
  with nl(1) have "t = takeWhile is_space t @ ver @ nl" by simp
  moreover have "\<forall>c \<in> set (takeWhile is_space t). is_space c" by (auto dest: set_takeWhileD)
  ultimately show ?thesis using nl by blast
qed

lemma after_operator_intro:
  assumes "\<forall>c \<in> set ws. is_space c" "ver \<noteq> []" "\<forall>c \<in> set ver. is_version_char c"
    "nl = [] \<or> nl = [CHR 0x0A]"
  shows "after_operator (ws @ ver @ nl) = Some ver"
proof -
  from assms(2,3) have "\<not> is_space (hd ver)" by (simp add: version_char_not_space)
  with assms(2) have "dropWhile is_space (ver @ nl) = ver @ nl" by (cases ver) simp_all
  with assms(1) have "dropWhile is_space (ws @ ver @ nl) = ver @ nl"
    by (simp add: dropWhile_append2)
  with version_tail_intro [OF assms(2,3,4)] show ?thesis by (simp add: after_operator_def)
qed

lemma startswith_append: "startswith (p @ s) p"
  by (simp add: startswith_def)

lemma startswithD: "startswith s p \<Longrightarrow> s = p @ drop (length p) s"
  by (metis append_take_drop_id startswith_def)

lemma match_version_at_Some:
  assumes "match_version_at s = Some ver"
  shows "\<exists>oper ws nl. s = oper @ ws @ ver @ nl \<and> oper \<in> set version_operators \<and>
           (\<forall>c \<in> set ws. is_space c) \<and> ver \<noteq> [] \<and> (\<forall>c \<in> set ver. is_version_char c) \<and>
           (nl = [] \<or> nl = [CHR 0x0A])"
proof -
  from assms obtain oper where
    f: "List.find (\<lambda>oper. startswith s oper \<and> after_operator (drop (length oper) s) \<noteq> None)
          version_operators = Some oper"
    and a: "after_operator (drop (length oper) s) = Some ver"
    by (auto simp: match_version_at_def split: option.splits)
  from f have mem: "oper \<in> set version_operators" and st: "startswith s oper"
    by (auto simp: find_Some_iff)
  from after_operator_Some [OF a] obtain ws nl where
    "drop (length oper) s = ws @ ver @ nl" "\<forall>c \<in> set ws. is_space c" "ver \<noteq> []"
    "\<forall>c \<in> set ver. is_version_char c" "nl = [] \<or> nl = [CHR 0x0A]" by blast
  with startswithD [OF st] mem show ?thesis by metis
qed

lemma match_version_at_intro:
  assumes "oper \<in> set version_operators" "\<forall>c \<in> set ws. is_space c" "ver \<noteq> []"
    "\<forall>c \<in> set ver. is_version_char c" "nl = [] \<or> nl = [CHR 0x0A]"
  shows "match_version_at (oper @ ws @ ver @ nl) \<noteq> None"
proof -
  let ?s = "oper @ ws @ ver @ nl"
  let ?P = "\<lambda>oper. startswith ?s oper \<and> after_operator (drop (length oper) ?s) \<noteq> None"
  from after_operator_intro [OF assms(2-5)] have "?P oper" by (simp add: startswith_append)
  with assms(1) have "List.find ?P version_operators \<noteq> None" by (auto simp: find_None_iff)
  then obtain o' where f: "List.find ?P version_operators = Some o'" by blast
  then have "?P o'" by (auto simp: find_Some_iff)
  with f show ?thesis by (auto simp: match_version_at_def)
qed

lemma VERSION_MATCHER_search_Some:
  "VERSION_MATCHER_search s = Some ver \<Longrightarrow> ends_with_version s"
proof (induction s)
  case Nil
  then have "match_version_at [] = Some ver" by simp
  from match_version_at_Some [OF this] show ?case unfolding ends_with_version_def
    by (metis append_Nil)
next
  case (Cons c cs)
  show ?case
  proof (cases "match_version_at (c # cs)")
    case (Some v)
    from match_version_at_Some [OF this] show ?thesis unfolding ends_with_version_def
      by (metis append_Nil)
  next
    case None
    with Cons.prems have "VERSION_MATCHER_search cs = Some ver" by simp
    from Cons.IH [OF this] obtain pre oper ws ver' nl where
      "cs = pre @ oper @ ws @ ver' @ nl" "oper \<in> set version_operators"
      "\<forall>c \<in> set ws. is_space c" "ver' \<noteq> []" "\<forall>c \<in> set ver'. is_version_char c"
      "nl = [] \<or> nl = [CHR 0x0A]"
      unfolding ends_with_version_def by blast
    then have "c # cs = (c # pre) @ oper @ ws @ ver' @ nl" by simp
    with \<open>oper \<in> set version_operators\<close> \<open>\<forall>c \<in> set ws. is_space c\<close> \<open>ver' \<noteq> []\<close>
      \<open>\<forall>c \<in> set ver'. is_version_char c\<close> \<open>nl = [] \<or> nl = [CHR 0x0A]\<close>
    show ?thesis unfolding ends_with_version_def by blast
  qed
qed

lemma VERSION_MATCHER_search_append:
  "match_version_at s \<noteq> None \<Longrightarrow> VERSION_MATCHER_search (pre @ s) \<noteq> None"
proof (induction pre)
  case Nil
  then show ?case by (cases s) auto
next
  case (Cons p pre)
  then show ?case by (auto split: option.splits)
qed

lemma VERSION_MATCHER_search_iff:
  "VERSION_MATCHER_search s \<noteq> None \<longleftrightarrow> ends_with_version s"
proof
  assume "VERSION_MATCHER_search s \<noteq> None"
  then show "ends_with_version s" using VERSION_MATCHER_search_Some by blast
next
  assume "ends_with_version s"
  then obtain pre oper ws ver nl where
    "s = pre @ oper @ ws @ ver @ nl" "oper \<in> set version_operators"
    "\<forall>c \<in> set ws. is_space c" "ver \<noteq> []" "\<forall>c \<in> set ver. is_version_char c"
    "nl = [] \<or> nl = [CHR 0x0A]"
    unfolding ends_with_version_def by blast
  with match_version_at_intro [of oper ws ver nl] VERSION_MATCHER_search_append
  show "VERSION_MATCHER_search s \<noteq> None" by simp
qed

lemma ends_with_version_not_Nil: "\<not> ends_with_version []"
  by (simp add: ends_with_version_def)

lemma lacks_version_iff: "lacks_version r \<longleftrightarrow> missing_version r"
proof (cases "val r")
  case None
  then show ?thesis by (simp add: lacks_version_def missing_version_def)
next
  case (Some v)
  then have "has_version r \<longleftrightarrow> ends_with_version v"
    using VERSION_MATCHER_search_iff [of v] ends_with_version_not_Nil
    by (auto simp: has_version_def extract_version_def)
  with Some show ?thesis by (simp add: lacks_version_def missing_version_def)
qed

text \<open>
  Claim C5, as amended. Whenever \<open>fix_requirements\<close> returns on a file that is not blank, it
  reports, with \<open>require_version\<close>, the values of exactly those sorted entries that do not
  start with \<^verbatim>\<open>-r\<close> and in which \<open>VERSION_MATCHER\<close> finds nothing, that is, which do not end
  in an operator (a comparison or \<^verbatim>\<open>@\<close>), whitespace and a version; it prints them when there
  is at least one, and it reports nothing without \<open>require_version\<close>.
\<close>

theorem missing_versions_reported:
  assumes "fix_requirements f require_version = Inr res" "strip f \<noteq> []"
  shows "\<exists>reqs rest es.
           pop_rest (scan (add_newline (readlines f))) = Inr (reqs, rest) \<and>
           sorted_requirements (remove_blacklisted reqs) = Inr es \<and>
           (\<forall>r \<in> set es. val r \<noteq> None) \<and>
           printed res =
             (if require_version \<and> filter missing_version es \<noteq> []
              then [Missing_versions (map (the \<circ> val) (filter missing_version es))] else [])"
proof -
  from fix_requirements_structure [OF assms] obtain after missing_versions where
    c: "corrected (add_newline (readlines f)) require_version = Inr (after, missing_versions)"
    and pr: "printed res = (if missing_versions = [] then [] else [Missing_versions missing_versions])"
    by blast
  from corrected_structure [OF c] obtain reqs rest es where
    p: "pop_rest (scan (add_newline (readlines f))) = Inr (reqs, rest)"
    and s: "sorted_requirements (remove_blacklisted reqs) = Inr es"
    and v: "\<forall>r \<in> set es. \<exists>v. val r = Some v \<and> v \<noteq> []"
    and m: "missing_versions =
             (if require_version then map (the \<circ> val) (filter lacks_version es) else [])"
    by blast
  have "lacks_version = missing_version"
    by (rule ext) (rule lacks_version_iff)
  then have "filter lacks_version es = filter missing_version es" by simp
  with m pr have "printed res =
             (if require_version \<and> filter missing_version es \<noteq> []
              then [Missing_versions (map (the \<circ> val) (filter missing_version es))] else [])"
    by simp
  moreover from v have "\<forall>r \<in> set es. val r \<noteq> None" by auto
  ultimately show ?thesis using p s by blast
qed

theorem missing_versions_reported_witness:
  "\<exists>res. fix_requirements ''a\<newline>bbbb~=2.0\<newline>c>=1\<newline>'' True = Inr res \<and>
     strip ''a\<newline>bbbb~=2.0\<newline>c>=1\<newline>'' \<noteq> [] \<and>
     printed res = [Missing_versions [''a\<newline>'']] \<and>
     (\<exists>reqs rest es.
           pop_rest (scan (add_newline (readlines ''a\<newline>bbbb~=2.0\<newline>c>=1\<newline>''))) = Inr (reqs, rest) \<and>
           sorted_requirements (remove_blacklisted reqs) = Inr es \<and>
           (\<forall>r \<in> set es. val r \<noteq> None) \<and>
           printed res =
             (if True \<and> filter missing_version es \<noteq> []
              then [Missing_versions (map (the \<circ> val) (filter missing_version es))] else []))"
proof -
  have a: "fix_requirements ''a\<newline>bbbb~=2.0\<newline>c>=1\<newline>'' True
     = Inr \<lparr>outcome = 1, calls = [], printed = [Missing_versions [''a\<newline>'']]\<rparr>"
    by code_simp
  have b: "strip ''a\<newline>bbbb~=2.0\<newline>c>=1\<newline>'' \<noteq> []" by code_simp
  have c: "printed \<lparr>outcome = 1, calls = [], printed = [Missing_versions [''a\<newline>'']]\<rparr>
     = [Missing_versions [''a\<newline>'']]" by simp
  from missing_versions_reported [OF a b] a b c show ?thesis by blast
qed

text \<open>
  Claim C5 as it is stated fails in both directions. The entry \<^verbatim>\<open>a==1.*\<close> contains the
  operator \<^verbatim>\<open>==\<close>, as \<open>UNTIL_COMPARISON\<close> finds, and is reported, since no version ends its
  value; the entry \<^verbatim>\<open>a@b\<close> contains no comparison operator and is not reported.
\<close>

theorem reported_despite_operator:
  "fix_requirements ''a==1.*\<newline>'' True
     = Inr \<lparr>outcome = FAIL, calls = [], printed = [Missing_versions [''a==1.*\<newline>'']]\<rparr> \<and>
   UNTIL_COMPARISON_search ''a==1.*\<newline>'' = Some 1 \<and>
   fix_requirements ''a@b\<newline>'' True = Inr \<lparr>outcome = PASS, calls = [], printed = []\<rparr> \<and>
   UNTIL_COMPARISON_search ''a@b\<newline>'' = None"
  by code_simp

end
